theory Spec2Isabelle
  imports Main "HOL-Library.AList"
begin

section \<open>Python values: strings and exceptions\<close>

text \<open>
  A Python \<open>str\<close> is modelled as a \<open>char list\<close> in which every \<open>char\<close> is one code
  point (the code points below 256), so that \<open>length\<close> is Python's \<open>len\<close>.
  Exceptions are values: the exception class with its message.
\<close>

datatype error =
    ValueError string
  | KeyError string
  | AttributeError string
  | OverflowError string

text \<open>The f-strings of the source put names and numbers between single quotes.\<close>

definition quoted :: "string \<Rightarrow> string" where
  "quoted s = CHR 0x27 # s @ [CHR 0x27]"

text \<open>
  \<open>str.isdigit\<close>: true when the string is not empty and every character has the Unicode
  property Numeric_Type=Digit or Decimal. Below code point 256 these are the ASCII digits
  (48 to 57) and the superscripts two, three and one (0xB2, 0xB3, 0xB9).
\<close>

definition isdigit_char :: "char \<Rightarrow> bool" where
  "isdigit_char c =
     (let n = (of_char c :: nat)
      in (48 \<le> n \<and> n \<le> 57) \<or> n = 0xB2 \<or> n = 0xB3 \<or> n = 0xB9)"

definition isdigit :: "string \<Rightarrow> bool" where
  "isdigit s = (s \<noteq> [] \<and> list_all isdigit_char s)"

text \<open>The decimal digits \<open>0\<close> to \<open>9\<close>, as the specification words them.\<close>

definition decimal_digit :: "char \<Rightarrow> bool" where
  "decimal_digit c = (c \<in> set ''0123456789'')"

section \<open>Calendar dates (the \<open>datetime.date\<close> of the standard library)\<close>

datatype date = Date (year: int) (month: int) (day: int)

text \<open>
  The functions below follow the reference implementation of the standard library
  (\<open>datetime.py\<close>): a date is a year from 1 to 9999, a month and a day of that month in
  the proleptic Gregorian calendar, and its ordinal counts days from 0001-01-01 as day 1.
  Python's \<open>//\<close> and \<open>%\<close> round to minus infinity, as \<open>div\<close> and \<open>mod\<close> on \<open>int\<close> do.
\<close>

definition MAXORDINAL :: int where
  "MAXORDINAL = 3652059"

definition DAYS_IN_MONTH :: "int list" where
  "DAYS_IN_MONTH = [-1, 31, 28, 31, 30, 31, 30, 31, 31, 30, 31, 30, 31]"

definition DAYS_BEFORE_MONTH :: "int list" where
  "DAYS_BEFORE_MONTH = [-1, 0, 31, 59, 90, 120, 151, 181, 212, 243, 273, 304, 334]"

definition is_leap :: "int \<Rightarrow> bool" where
  "is_leap y = (y mod 4 = 0 \<and> (y mod 100 \<noteq> 0 \<or> y mod 400 = 0))"

definition days_before_year :: "int \<Rightarrow> int" where
  "days_before_year y' = (let y = y' - 1 in y * 365 + y div 4 - y div 100 + y div 400)"

definition days_in_month :: "int \<Rightarrow> int \<Rightarrow> int" where
  "days_in_month y m = (if m = 2 \<and> is_leap y then 29 else DAYS_IN_MONTH ! nat m)"

definition days_before_month :: "int \<Rightarrow> int \<Rightarrow> int" where
  "days_before_month y m = DAYS_BEFORE_MONTH ! nat m + (if m > 2 \<and> is_leap y then 1 else 0)"

definition ymd2ord :: "int \<Rightarrow> int \<Rightarrow> int \<Rightarrow> int" where
  "ymd2ord y m d = days_before_year y + days_before_month y m + d"

definition DI400Y :: int where
  "DI400Y = days_before_year 401"

definition DI100Y :: int where
  "DI100Y = days_before_year 101"

definition DI4Y :: int where
  "DI4Y = days_before_year 5"

definition digit_char :: "nat \<Rightarrow> char" where
  "digit_char n = char_of (48 + n)"

definition pad2 :: "nat \<Rightarrow> string" where
  "pad2 n = [digit_char (n div 10 mod 10), digit_char (n mod 10)]"

definition pad4 :: "nat \<Rightarrow> string" where
  "pad4 n = [digit_char (n div 1000 mod 10), digit_char (n div 100 mod 10),
             digit_char (n div 10 mod 10), digit_char (n mod 10)]"

text \<open>\<open>str\<close> of an integer.\<close>

fun str_nat :: "nat \<Rightarrow> string" where
  "str_nat n = (if n < 10 then [digit_char n] else str_nat (n div 10) @ [digit_char (n mod 10)])"

declare str_nat.simps [simp del]

definition str_int :: "int \<Rightarrow> string" where
  "str_int i = (if i < 0 then CHR ''-'' # str_nat (nat (- i)) else str_nat (nat i))"

text \<open>
  The check of year, month and day that every constructor of a date goes through
  (\<open>_check_date_fields\<close>), with the messages of the C implementation.
\<close>

definition check_date_fields :: "int \<Rightarrow> int \<Rightarrow> int \<Rightarrow> error + date" where
  "check_date_fields y m d =
     (if \<not> (1 \<le> y \<and> y \<le> 9999) then Inl (ValueError (''year '' @ str_int y @ '' is out of range''))
      else if \<not> (1 \<le> m \<and> m \<le> 12) then Inl (ValueError ''month must be in 1..12'')
      else if \<not> (1 \<le> d \<and> d \<le> days_in_month y m)
        then Inl (ValueError ''day is out of range for month'')
      else Inr (Date y m d))"

text \<open>The dates that can be built: those that pass the check.\<close>

definition valid_date :: "date \<Rightarrow> bool" where
  "valid_date d =
     (1 \<le> year d \<and> year d \<le> 9999 \<and> 1 \<le> month d \<and> month d \<le> 12 \<and>
      1 \<le> day d \<and> day d \<le> days_in_month (year d) (month d))"

definition replace_year :: "date \<Rightarrow> int \<Rightarrow> error + date" where
  "replace_year self y = check_date_fields y (month self) (day self)"

definition toordinal :: "date \<Rightarrow> int" where
  "toordinal self = ymd2ord (year self) (month self) (day self)"

definition weekday :: "date \<Rightarrow> int" where
  "weekday self = (toordinal self + 6) mod 7"

text \<open>Dates compare as the tuples \<open>(year, month, day)\<close>.\<close>

definition date_lt :: "date \<Rightarrow> date \<Rightarrow> bool" where
  "date_lt a b =
     (year a < year b \<or>
      (year a = year b \<and> (month a < month b \<or> (month a = month b \<and> day a < day b))))"

text \<open>\<open>(a - b).days\<close>\<close>

definition sub_days :: "date \<Rightarrow> date \<Rightarrow> int" where
  "sub_days a b = toordinal a - toordinal b"

definition ord2ymd :: "int \<Rightarrow> date" where
  "ord2ymd ordinal =
     (let n = ordinal - 1;
          n400 = n div DI400Y; n = n mod DI400Y;
          y = n400 * 400 + 1;
          n100 = n div DI100Y; n = n mod DI100Y;
          n4 = n div DI4Y; n = n mod DI4Y;
          n1 = n div 365; n = n mod 365;
          y = y + n100 * 100 + n4 * 4 + n1
      in if n1 = 4 \<or> n100 = 4 then Date (y - 1) 12 31
         else
           let leapyear = (n1 = 3 \<and> (n4 \<noteq> 24 \<or> n100 = 3));
               m = (n + 50) div 32;
               preceding = DAYS_BEFORE_MONTH ! nat m + (if m > 2 \<and> leapyear then 1 else 0)
           in if preceding > n
              then let m = m - 1;
                       preceding = preceding
                         - (DAYS_IN_MONTH ! nat m + (if m = 2 \<and> leapyear then 1 else 0))
                   in Date y m (n - preceding + 1)
              else Date y m (n - preceding + 1))"

text \<open>\<open>self + timedelta(days=n)\<close>\<close>

definition add_days :: "date \<Rightarrow> int \<Rightarrow> error + date" where
  "add_days self n =
     (let ordinal = toordinal self + n
      in if 0 < ordinal \<and> ordinal \<le> MAXORDINAL then Inr (ord2ymd ordinal)
         else Inl (OverflowError ''date value out of range''))"

text \<open>
  \<open>self.strftime("%Y.%m.%d")\<close>: month and day with two digits, the year with four (the
  C library writes a year below 1000 with or without leading zeros, by platform; the
  years of this program come from the clock).
\<close>

definition strftime :: "date \<Rightarrow> string" where
  "strftime self =
     pad4 (nat (year self)) @ ''.'' @ pad2 (nat (month self)) @ ''.'' @ pad2 (nat (day self))"

subsection \<open>\<open>datetime.strptime(value, "%d.%m.%Y")\<close>\<close>

text \<open>
  \<open>_strptime\<close> compiles the format into the regular expression
  \<^verbatim>\<open>(?P<d>3[0-1]|[1-2]\d|0[1-9]|[1-9]| [1-9])\.(?P<m>1[0-2]|0[1-9]|[1-9])\.(?P<Y>\d\d\d\d)\<close>,
  matches it at the start of the string, and raises when text remains after the match.
  The matcher is the backtracking one: \<open>rmatch e s\<close> lists, in the order in which they are
  tried, the remainders of \<open>s\<close> after each way of matching \<open>e\<close> at its start. Below code
  point 256 the class \<^verbatim>\<open>\d\<close> is the ASCII digits.
\<close>

datatype regex = Lit char | Range char char | Digit | Seq regex regex | Alt regex regex

fun rmatch :: "regex \<Rightarrow> string \<Rightarrow> string list" where
  "rmatch (Lit c) s = (case s of [] \<Rightarrow> [] | x # r \<Rightarrow> if x = c then [r] else [])"
| "rmatch (Range lo hi) s =
     (case s of [] \<Rightarrow> []
      | x # r \<Rightarrow> if (of_char lo :: nat) \<le> of_char x \<and> (of_char x :: nat) \<le> of_char hi
                 then [r] else [])"
| "rmatch Digit s =
     (case s of [] \<Rightarrow> []
      | x # r \<Rightarrow> if (48 :: nat) \<le> of_char x \<and> of_char x \<le> (57 :: nat) then [r] else [])"
| "rmatch (Seq a b) s = concat (map (rmatch b) (rmatch a s))"
| "rmatch (Alt a b) s = rmatch a s @ rmatch b s"

definition re_d :: regex where
  "re_d = Alt (Seq (Lit CHR ''3'') (Range CHR ''0'' CHR ''1''))
         (Alt (Seq (Range CHR ''1'' CHR ''2'') Digit)
         (Alt (Seq (Lit CHR ''0'') (Range CHR ''1'' CHR ''9''))
         (Alt (Range CHR ''1'' CHR ''9'')
              (Seq (Lit CHR '' '') (Range CHR ''1'' CHR ''9'')))))"

definition re_m :: regex where
  "re_m = Alt (Seq (Lit CHR ''1'') (Range CHR ''0'' CHR ''2''))
         (Alt (Seq (Lit CHR ''0'') (Range CHR ''1'' CHR ''9''))
              (Range CHR ''1'' CHR ''9''))"

definition re_Y :: regex where
  "re_Y = Seq Digit (Seq Digit (Seq Digit Digit))"

text \<open>The text of a group: what was consumed between the string \<open>s\<close> and its remainder \<open>r\<close>.\<close>

definition group :: "string \<Rightarrow> string \<Rightarrow> string" where
  "group s r = take (length s - length r) s"

text \<open>The first match, as the groups \<open>d\<close>, \<open>m\<close>, \<open>Y\<close> and the text after the match.\<close>

definition format_regex_match :: "string \<Rightarrow> ((string \<times> string \<times> string) \<times> string) option" where
  "format_regex_match s =
     (case [((group s r1, group r2 r3, group r4 r5), r5).
              r1 \<leftarrow> rmatch re_d s, r2 \<leftarrow> rmatch (Lit CHR ''.'') r1,
              r3 \<leftarrow> rmatch re_m r2, r4 \<leftarrow> rmatch (Lit CHR ''.'') r3,
              r5 \<leftarrow> rmatch re_Y r4] of
        [] \<Rightarrow> None
      | found # _ \<Rightarrow> Some found)"

text \<open>\<open>int(text)\<close> on the text of a group: surrounding blanks are skipped, the rest is read in
  base ten.\<close>

definition int_of_str :: "string \<Rightarrow> int" where
  "int_of_str s =
     foldl (\<lambda>a c. 10 * a + (int (of_char c) - 48)) 0 (dropWhile (\<lambda>c. c = CHR '' '') s)"

definition strptime :: "string \<Rightarrow> error + date" where
  "strptime data_string =
     (case format_regex_match data_string of
        None \<Rightarrow> Inl (ValueError (''time data '' @ quoted data_string
                       @ '' does not match format '' @ quoted ''%d.%m.%Y''))
      | Some ((d, m, Y), rest) \<Rightarrow>
          if rest \<noteq> [] then Inl (ValueError (''unconverted data remains: '' @ rest))
          else check_date_fields (int_of_str Y) (int_of_str m) (int_of_str d))"

section \<open>Fields\<close>

text \<open>
  \<open>Name.__init__\<close>, \<open>Phone.__init__\<close> and \<open>Birthday.__init__\<close> override
  \<open>Field.__init__\<close> and never call it. A \<open>Name\<close> object so has the one attribute
  \<open>name\<close>, a \<open>Phone\<close> object the one attribute \<open>number\<close>, and a \<open>Birthday\<close>
  object the attributes \<open>date\<close> and \<open>value\<close>.
\<close>

datatype Name = Name (name: string)

datatype Phone = Phone (number: string)

datatype Birthday = Birthday (date: date) (value_attr: string)

datatype Field = NameField Name | PhoneField Phone | BirthdayField Birthday

definition Name_init :: "string \<Rightarrow> Name" where
  "Name_init n = Name n"

definition Phone_init :: "string \<Rightarrow> error + Phone" where
  "Phone_init number' =
     (if length number' \<noteq> 10 \<or> \<not> isdigit number'
      then Inl (ValueError ''Phone number must be 10 digits.'')
      else Inr (Phone number'))"

text \<open>
  \<open>Birthday.__init__\<close> keeps the parsed date (a \<open>datetime\<close> at midnight, here its date)
  and the text; any \<open>ValueError\<close> of the parser is replaced by its own.
\<close>

definition Birthday_init :: "string \<Rightarrow> error + Birthday" where
  "Birthday_init v =
     (case strptime v of
        Inl (ValueError msg) \<Rightarrow> Inl (ValueError ''Invalid date format. Use DD.MM.YYYY'')
      | Inl e \<Rightarrow> Inl e
      | Inr d \<Rightarrow> Inr (Birthday d v))"

text \<open>
  \<open>Field.__str__\<close> returns \<open>str(self.value)\<close>. Reading an attribute that the object
  does not have raises \<open>AttributeError\<close>; \<open>str\<close> of a string is the string.
\<close>

fun getattr_value :: "Field \<Rightarrow> error + string" where
  "getattr_value (NameField n) =
     Inl (AttributeError (quoted ''Name'' @ '' object has no attribute '' @ quoted ''value''))"
| "getattr_value (PhoneField p) =
     Inl (AttributeError (quoted ''Phone'' @ '' object has no attribute '' @ quoted ''value''))"
| "getattr_value (BirthdayField b) = Inr (value_attr b)"

definition Field_str :: "Field \<Rightarrow> error + string" where
  "Field_str self = (case getattr_value self of Inl e \<Rightarrow> Inl e | Inr v \<Rightarrow> Inr v)"

section \<open>Record\<close>

record Record =
  name :: Name
  phones :: "Phone list"
  birthday :: "Birthday option"

text \<open>The list comprehension \<open>[Phone(phone) for phone in phones]\<close> stops at the first
  phone that \<open>Phone\<close> rejects.\<close>

fun make_phones :: "string list \<Rightarrow> error + Phone list" where
  "make_phones [] = Inr []"
| "make_phones (phone # rest) =
     (case Phone_init phone of
        Inl e \<Rightarrow> Inl e
      | Inr p \<Rightarrow> (case make_phones rest of Inl e \<Rightarrow> Inl e | Inr ps \<Rightarrow> Inr (p # ps)))"

definition Record_add_phone :: "Record \<Rightarrow> string \<Rightarrow> error + Record" where
  "Record_add_phone self phone =
     (case Phone_init phone of
        Inl e \<Rightarrow> Inl e
      | Inr p \<Rightarrow> Inr (self\<lparr>phones := phones self @ [p]\<rparr>))"

definition remove_phone :: "Record \<Rightarrow> string \<Rightarrow> Record" where
  "remove_phone self phone = self\<lparr>phones := filter (\<lambda>p. number p \<noteq> phone) (phones self)\<rparr>"

text \<open>
  The \<open>for ... else\<close> of \<open>edit_phone\<close>: the first phone whose number is \<open>old_phone\<close> gets
  \<open>new_phone\<close> assigned to its attribute \<open>number\<close> and the loop breaks; \<open>None\<close> is the
  loop running to its end, where the \<open>else\<close> branch raises.
\<close>

fun edit_loop :: "Phone list \<Rightarrow> string \<Rightarrow> string \<Rightarrow> Phone list option" where
  "edit_loop [] old_phone new_phone = None"
| "edit_loop (p # ps) old_phone new_phone =
     (if number p = old_phone then Some (Phone new_phone # ps)
      else map_option ((#) p) (edit_loop ps old_phone new_phone))"

definition edit_phone :: "Record \<Rightarrow> string \<Rightarrow> string \<Rightarrow> error + Record" where
  "edit_phone self old_phone new_phone =
     (case edit_loop (phones self) old_phone new_phone of
        Some ps \<Rightarrow> Inr (self\<lparr>phones := ps\<rparr>)
      | None \<Rightarrow>
          Inl (ValueError (''Phone '' @ quoted old_phone @ '' not found for contact ''
                           @ quoted (Name.name (name self)) @ ''.'')))"

definition find_phone :: "Record \<Rightarrow> string \<Rightarrow> Phone option" where
  "find_phone self phone = find (\<lambda>p. number p = phone) (phones self)"

definition Record_add_birthday :: "Record \<Rightarrow> string \<Rightarrow> error + Record" where
  "Record_add_birthday self b =
     (case Birthday_init b of
        Inl e \<Rightarrow> Inl e
      | Inr bd \<Rightarrow> Inr (self\<lparr>birthday := Some bd\<rparr>))"

text \<open>
  \<open>Record(name, *phones, birthday=None)\<close>: the name, then the phones in order, then the
  birthday, which is built only when the argument is truthy (neither \<open>None\<close> nor the
  empty string).
\<close>

definition Record_init :: "string \<Rightarrow> string list \<Rightarrow> string option \<Rightarrow> error + Record" where
  "Record_init name' phones' birthday' =
     (case make_phones phones' of
        Inl e \<Rightarrow> Inl e
      | Inr ps \<Rightarrow>
          (case birthday' of
             None \<Rightarrow> Inr \<lparr>name = Name_init name', phones = ps, birthday = None\<rparr>
           | Some b \<Rightarrow>
               if b = [] then Inr \<lparr>name = Name_init name', phones = ps, birthday = None\<rparr>
               else (case Birthday_init b of
                       Inl e \<Rightarrow> Inl e
                     | Inr bd \<Rightarrow>
                         Inr \<lparr>name = Name_init name', phones = ps, birthday = Some bd\<rparr>)))"

section \<open>AddressBook\<close>

text \<open>
  The \<open>data\<close> dictionary of the \<open>UserDict\<close>, as the list of its items in insertion order.
  \<open>AList.update\<close> is the assignment \<open>data[k] = v\<close>: a present key keeps its place and gets
  the value, an absent key goes to the end. A method that changes a record found in the
  dictionary changes the object the dictionary holds: the model stores the changed record
  under the key it was found at. A record object is always truthy, so \<open>if record:\<close> asks
  whether \<open>find_record\<close> found one.
\<close>

type_synonym AddressBook = "(string \<times> Record) list"

definition add_record :: "AddressBook \<Rightarrow> Record \<Rightarrow> AddressBook" where
  "add_record data record = AList.update (Name.name (name record)) record data"

definition delete_record :: "AddressBook \<Rightarrow> string \<Rightarrow> error + AddressBook" where
  "delete_record data name' =
     (case map_of data name' of
        None \<Rightarrow> Inl (KeyError (quoted name'))
      | Some r \<Rightarrow> Inr (AList.delete name' data))"

definition find_record :: "AddressBook \<Rightarrow> string \<Rightarrow> Record option" where
  "find_record data name' = map_of data name'"

definition AddressBook_add_phone :: "AddressBook \<Rightarrow> string \<Rightarrow> string \<Rightarrow> error + AddressBook" where
  "AddressBook_add_phone data name' phone =
     (case find_record data name' of
        Some record \<Rightarrow>
          (case Record_add_phone record phone of
             Inl e \<Rightarrow> Inl e
           | Inr record' \<Rightarrow> Inr (AList.update name' record' data))
      | None \<Rightarrow>
          (case Record_init name' [phone] None of
             Inl e \<Rightarrow> Inl e
           | Inr record \<Rightarrow> Inr (add_record data record)))"

definition delete_phone :: "AddressBook \<Rightarrow> string \<Rightarrow> string \<Rightarrow> error + AddressBook" where
  "delete_phone data name' phone =
     (case find_record data name' of
        Some record \<Rightarrow> Inr (AList.update name' (remove_phone record phone) data)
      | None \<Rightarrow>
          Inl (KeyError (''Contact '' @ quoted name' @ '' not found in the address book.'')))"

definition change_phone :: "AddressBook \<Rightarrow> string \<Rightarrow> string \<Rightarrow> string \<Rightarrow> error + AddressBook" where
  "change_phone data name' old_phone new_phone =
     (case find_record data name' of
        Some record \<Rightarrow>
          (case edit_phone record old_phone new_phone of
             Inl e \<Rightarrow> Inl e
           | Inr record' \<Rightarrow> Inr (AList.update name' record' data))
      | None \<Rightarrow>
          Inl (KeyError (''Contact '' @ quoted name' @ '' not found in the address book.'')))"

definition AddressBook_add_birthday :: "AddressBook \<Rightarrow> string \<Rightarrow> string \<Rightarrow> error + AddressBook" where
  "AddressBook_add_birthday data name' b =
     (case find_record data name' of
        Some record \<Rightarrow>
          (case Record_add_birthday record b of
             Inl e \<Rightarrow> Inl e
           | Inr record' \<Rightarrow> Inr (AList.update name' record' data))
      | None \<Rightarrow>
          Inl (KeyError (''Contact '' @ quoted name' @ '' not found in the address book.'')))"

text \<open>
  The operations of the directory, and a session of them. Every method raises before it
  changes anything, and the command loop goes on after an exception: a failed operation
  leaves the book as it was.
\<close>

datatype operation =
    AddRecord Record
  | DeleteRecord string
  | AddPhone string string
  | DeletePhone string string
  | ChangePhone string string string
  | AddBirthday string string

fun apply_operation :: "AddressBook \<Rightarrow> operation \<Rightarrow> error + AddressBook" where
  "apply_operation data (AddRecord record) = Inr (add_record data record)"
| "apply_operation data (DeleteRecord n) = delete_record data n"
| "apply_operation data (AddPhone n phone) = AddressBook_add_phone data n phone"
| "apply_operation data (DeletePhone n phone) = delete_phone data n phone"
| "apply_operation data (ChangePhone n old_phone new_phone) = change_phone data n old_phone new_phone"
| "apply_operation data (AddBirthday n b) = AddressBook_add_birthday data n b"

fun run_operations :: "AddressBook \<Rightarrow> operation list \<Rightarrow> AddressBook" where
  "run_operations data [] = data"
| "run_operations data (operation # rest) =
     (case apply_operation data operation of
        Inl e \<Rightarrow> run_operations data rest
      | Inr data' \<Rightarrow> run_operations data' rest)"

text \<open>The invariant of the directory: every key is the name of the record it maps to.\<close>

definition keys_are_names :: "AddressBook \<Rightarrow> bool" where
  "keys_are_names data = list_all (\<lambda>(k, record). Name.name (name record) = k) data"

section \<open>Upcoming birthdays\<close>

text \<open>
  Lines 154 to 157: the birthday in the year of \<open>today\<close>, moved to the next year when it
  is before \<open>today\<close>. \<open>today\<close> is the value the source reads from the clock.
\<close>

definition projected :: "date \<Rightarrow> date \<Rightarrow> error + date" where
  "projected birthday' today =
     (case replace_year birthday' (year today) of
        Inl e \<Rightarrow> Inl e
      | Inr birthday_this_year \<Rightarrow>
          if date_lt birthday_this_year today
          then replace_year birthday_this_year (year today + 1)
          else Inr birthday_this_year)"

text \<open>
  The loop over \<open>address_book.values()\<close>, with the list \<open>upcoming_birthdays\<close> it appends
  to. An entry is the pair of the values under the keys \<open>"name"\<close> and
  \<open>"congratulation_date"\<close>. An exception leaves the loop and the function.
\<close>

fun upcoming_loop ::
  "Record list \<Rightarrow> int \<Rightarrow> date \<Rightarrow> (string \<times> string) list \<Rightarrow> error + (string \<times> string) list" where
  "upcoming_loop [] days today upcoming_birthdays = Inr upcoming_birthdays"
| "upcoming_loop (record # rest) days today upcoming_birthdays =
     (case birthday record of
        None \<Rightarrow> upcoming_loop rest days today upcoming_birthdays
      | Some b \<Rightarrow>
          (case projected (date b) today of
             Inl e \<Rightarrow> Inl e
           | Inr birthday_this_year \<Rightarrow>
               if sub_days birthday_this_year today \<le> days
               then
                 (case (if weekday birthday_this_year = 5 then add_days birthday_this_year 2
                        else if weekday birthday_this_year = 6 then add_days birthday_this_year 1
                        else Inr birthday_this_year) of
                    Inl e \<Rightarrow> Inl e
                  | Inr congratulation \<Rightarrow>
                      upcoming_loop rest days today
                        (upcoming_birthdays
                           @ [(Name.name (name record), strftime congratulation)]))
               else upcoming_loop rest days today upcoming_birthdays))"

definition get_upcoming_birthdays ::
  "AddressBook \<Rightarrow> int \<Rightarrow> date \<Rightarrow> error + (string \<times> string) list" where
  "get_upcoming_birthdays address_book days today =
     upcoming_loop (map snd address_book) days today []"

text \<open>The 29th of February.\<close>

definition leap_day :: "date \<Rightarrow> bool" where
  "leap_day d = (month d = 2 \<and> day d = 29)"

text \<open>The records the loop includes: those with a birthday whose projected date is at most
  \<open>days\<close> days after \<open>today\<close>.\<close>

definition in_window :: "int \<Rightarrow> date \<Rightarrow> Record \<Rightarrow> bool" where
  "in_window days today record =
     (case birthday record of
        None \<Rightarrow> False
      | Some b \<Rightarrow>
          (case projected (date b) today of
             Inl e \<Rightarrow> False
           | Inr birthday_this_year \<Rightarrow> sub_days birthday_this_year today \<le> days))"

section \<open>Birthdays on strings of any code points\<close>

text \<open>
  A Python \<open>str\<close> holds any Unicode code point, and the parser of birthdays treats the
  digits beyond ASCII in its own way: the class \<^verbatim>\<open>\d\<close> of the regular expression matches
  every Unicode decimal digit (category Nd), and \<open>int\<close> reads every such digit by its
  value, while the ranges \<^verbatim>\<open>[0-1]\<close>, \<^verbatim>\<open>[1-9]\<close> and the like match ASCII digits only.
  Here a string is the list of its code points, and the table of the Unicode decimal
  digits, which belongs to the Unicode database of the interpreter, is the parameter
  \<open>decimal\<close>: \<open>decimal c\<close> is the value of the digit \<open>c\<close>, and \<open>None\<close> when \<open>c\<close> is no
  decimal digit.
\<close>

text \<open>
  The matcher of the regular expression: \<^verbatim>\<open>\d\<close> matches the code points of the table,
  a literal and a range match by code point.
\<close>

fun rmatch_cp :: "(nat \<Rightarrow> nat option) \<Rightarrow> regex \<Rightarrow> nat list \<Rightarrow> nat list list" where
  "rmatch_cp decimal (Lit c) s =
     (case s of [] \<Rightarrow> [] | x # r \<Rightarrow> if x = of_char c then [r] else [])"
| "rmatch_cp decimal (Range lo hi) s =
     (case s of [] \<Rightarrow> []
      | x # r \<Rightarrow> if of_char lo \<le> x \<and> x \<le> of_char hi then [r] else [])"
| "rmatch_cp decimal Digit s =
     (case s of [] \<Rightarrow> []
      | x # r \<Rightarrow> (case decimal x of None \<Rightarrow> [] | Some v \<Rightarrow> [r]))"
| "rmatch_cp decimal (Seq a b) s = concat (map (rmatch_cp decimal b) (rmatch_cp decimal a s))"
| "rmatch_cp decimal (Alt a b) s = rmatch_cp decimal a s @ rmatch_cp decimal b s"

definition group_cp :: "nat list \<Rightarrow> nat list \<Rightarrow> nat list" where
  "group_cp s r = take (length s - length r) s"

definition format_regex_match_cp ::
  "(nat \<Rightarrow> nat option) \<Rightarrow> nat list \<Rightarrow> ((nat list \<times> nat list \<times> nat list) \<times> nat list) option" where
  "format_regex_match_cp decimal s =
     (case [((group_cp s r1, group_cp r2 r3, group_cp r4 r5), r5).
              r1 \<leftarrow> rmatch_cp decimal re_d s, r2 \<leftarrow> rmatch_cp decimal (Lit CHR ''.'') r1,
              r3 \<leftarrow> rmatch_cp decimal re_m r2, r4 \<leftarrow> rmatch_cp decimal (Lit CHR ''.'') r3,
              r5 \<leftarrow> rmatch_cp decimal re_Y r4] of
        [] \<Rightarrow> None
      | found # _ \<Rightarrow> Some found)"

text \<open>
  \<open>int(text)\<close> on the text of a group: blanks before the digits are skipped, and the
  digits, of any script, are read in base ten by their values in the table; any other
  character, or no digit at all, raises \<open>ValueError\<close>.
\<close>

fun digits_cp :: "(nat \<Rightarrow> nat option) \<Rightarrow> int \<Rightarrow> nat list \<Rightarrow> int option" where
  "digits_cp decimal a [] = Some a"
| "digits_cp decimal a (c # cs) =
     (case decimal c of None \<Rightarrow> None | Some v \<Rightarrow> digits_cp decimal (10 * a + int v) cs)"

definition int_cp :: "(nat \<Rightarrow> nat option) \<Rightarrow> nat list \<Rightarrow> error + int" where
  "int_cp decimal s =
     (case dropWhile (\<lambda>c. c = of_char CHR '' '') s of
        [] \<Rightarrow> Inl (ValueError ''invalid literal for int() with base 10'')
      | c # cs \<Rightarrow>
          (case digits_cp decimal 0 (c # cs) of
             None \<Rightarrow> Inl (ValueError ''invalid literal for int() with base 10'')
           | Some v \<Rightarrow> Inr v))"

text \<open>
  \<open>datetime.strptime(value, "%d.%m.%Y")\<close>: the groups are read in the order \<open>d\<close>,
  \<open>m\<close>, \<open>Y\<close>. The messages of the parser, which quote the data, are left out: the only
  caller replaces them.
\<close>

definition strptime_cp :: "(nat \<Rightarrow> nat option) \<Rightarrow> nat list \<Rightarrow> error + date" where
  "strptime_cp decimal data_string =
     (case format_regex_match_cp decimal data_string of
        None \<Rightarrow> Inl (ValueError ''time data does not match format'')
      | Some ((d, m, Y), rest) \<Rightarrow>
          if rest \<noteq> [] then Inl (ValueError ''unconverted data remains'')
          else
            (case int_cp decimal d of
               Inl e \<Rightarrow> Inl e
             | Inr day' \<Rightarrow>
                 (case int_cp decimal m of
                    Inl e \<Rightarrow> Inl e
                  | Inr month' \<Rightarrow>
                      (case int_cp decimal Y of
                         Inl e \<Rightarrow> Inl e
                       | Inr year' \<Rightarrow> check_date_fields year' month' day'))))"

text \<open>\<open>Birthday.__init__\<close>: the result is the pair of the attributes \<open>date\<close> and
  \<open>value\<close> of the object built.\<close>

definition Birthday_init_cp :: "(nat \<Rightarrow> nat option) \<Rightarrow> nat list \<Rightarrow> error + date \<times> nat list" where
  "Birthday_init_cp decimal v =
     (case strptime_cp decimal v of
        Inl (ValueError msg) \<Rightarrow> Inl (ValueError ''Invalid date format. Use DD.MM.YYYY'')
      | Inl e \<Rightarrow> Inl e
      | Inr d \<Rightarrow> Inr (d, v))"

section \<open>The specification's notions\<close>

text \<open>
  The pattern \<open>DD.MM.YYYY\<close>: two digits, a dot, two digits, a dot, four digits.
\<close>

definition matches_DD_MM_YYYY :: "string \<Rightarrow> bool" where
  "matches_DD_MM_YYYY s =
     (length s = 10 \<and> s ! 2 = CHR ''.'' \<and> s ! 5 = CHR ''.'' \<and>
      list_all decimal_digit (take 2 s @ take 2 (drop 3 s) @ drop 6 s))"

text \<open>
  The texts that the parser takes for a day, a month and a year: a day is one digit, two
  digits, or a blank and a digit; a month is one digit or two; a year is four digits.
\<close>

definition day_text :: "string \<Rightarrow> bool" where
  "day_text t =
     (case t of
        [a] \<Rightarrow> decimal_digit a
      | [a, b] \<Rightarrow> (a = CHR '' '' \<or> decimal_digit a) \<and> decimal_digit b
      | _ \<Rightarrow> False)"

definition month_text :: "string \<Rightarrow> bool" where
  "month_text t =
     (case t of
        [a] \<Rightarrow> decimal_digit a
      | [a, b] \<Rightarrow> decimal_digit a \<and> decimal_digit b
      | _ \<Rightarrow> False)"

definition year_text :: "string \<Rightarrow> bool" where
  "year_text t = (length t = 4 \<and> list_all decimal_digit t)"

text \<open>A real calendar date: a day of a month of a year of the Gregorian calendar, whose
  years start at 1.\<close>

definition leap_year :: "int \<Rightarrow> bool" where
  "leap_year y = (4 dvd y \<and> (\<not> 100 dvd y \<or> 400 dvd y))"

definition month_length :: "int \<Rightarrow> int \<Rightarrow> int" where
  "month_length y m =
     (if m = 2 then (if leap_year y then 29 else 28)
      else if m = 4 \<or> m = 6 \<or> m = 9 \<or> m = 11 then 30 else 31)"

definition real_calendar_date :: "int \<Rightarrow> int \<Rightarrow> int \<Rightarrow> bool" where
  "real_calendar_date y m d =
     (1 \<le> y \<and> 1 \<le> m \<and> m \<le> 12 \<and> 1 \<le> d \<and> d \<le> month_length y m)"

text \<open>
  What the table of the decimal digits is known to be: below code point 256 the decimal
  digits are the ASCII digits, with their values, and the value of a digit is at most 9.
\<close>

definition decimal_table :: "(nat \<Rightarrow> nat option) \<Rightarrow> bool" where
  "decimal_table decimal =
     ((\<forall>c<256. decimal c = (if 48 \<le> c \<and> c \<le> 57 then Some (c - 48) else None)) \<and>
      (\<forall>c v. decimal c = Some v \<longrightarrow> v \<le> 9))"

text \<open>An excerpt of the table: the ASCII digits and the Arabic-Indic digits (U+0660 to
  U+0669).\<close>

definition example_decimal :: "nat \<Rightarrow> nat option" where
  "example_decimal c =
     (if 48 \<le> c \<and> c \<le> 57 then Some (c - 48)
      else if 1632 \<le> c \<and> c \<le> 1641 then Some (c - 1632)
      else None)"

text \<open>
  On code points: the ASCII digits; the texts that the parser takes for a day (a digit
  from 1 to 9; a blank or a 0 and a digit from 1 to 9; a 1 or a 2 and a decimal digit of
  any script; a 3 and a 0 or a 1), for a month (a digit from 1 to 9; a 0 and a digit from
  1 to 9; a 1 and a 0, 1 or 2) and for a year (four decimal digits of any script); the
  number that such a text denotes; and the pattern \<open>DD.MM.YYYY\<close> in ASCII digits.
\<close>

definition ascii_digit :: "nat \<Rightarrow> bool" where
  "ascii_digit c = (48 \<le> c \<and> c \<le> 57)"

definition day_text_cp :: "(nat \<Rightarrow> nat option) \<Rightarrow> nat list \<Rightarrow> bool" where
  "day_text_cp decimal t =
     (case t of
        [a] \<Rightarrow> 49 \<le> a \<and> a \<le> 57
      | [a, b] \<Rightarrow>
          (a = 51 \<and> 48 \<le> b \<and> b \<le> 49) \<or>
          (49 \<le> a \<and> a \<le> 50 \<and> decimal b \<noteq> None) \<or>
          (a = 48 \<and> 49 \<le> b \<and> b \<le> 57) \<or>
          (a = 32 \<and> 49 \<le> b \<and> b \<le> 57)
      | _ \<Rightarrow> False)"

definition month_text_cp :: "nat list \<Rightarrow> bool" where
  "month_text_cp t =
     (case t of
        [a] \<Rightarrow> 49 \<le> a \<and> a \<le> 57
      | [a, b] \<Rightarrow> (a = 49 \<and> 48 \<le> b \<and> b \<le> 50) \<or> (a = 48 \<and> 49 \<le> b \<and> b \<le> 57)
      | _ \<Rightarrow> False)"

definition year_text_cp :: "(nat \<Rightarrow> nat option) \<Rightarrow> nat list \<Rightarrow> bool" where
  "year_text_cp decimal t = (length t = 4 \<and> list_all (\<lambda>c. decimal c \<noteq> None) t)"

definition number_cp :: "(nat \<Rightarrow> nat option) \<Rightarrow> nat list \<Rightarrow> int" where
  "number_cp decimal t =
     foldl (\<lambda>a c. 10 * a + (case decimal c of None \<Rightarrow> 0 | Some v \<Rightarrow> int v)) 0
       (dropWhile (\<lambda>c. c = 32) t)"

definition matches_DD_MM_YYYY_cp :: "nat list \<Rightarrow> bool" where
  "matches_DD_MM_YYYY_cp s =
     (length s = 10 \<and> s ! 2 = 46 \<and> s ! 5 = 46 \<and>
      list_all ascii_digit (take 2 s @ take 2 (drop 3 s) @ drop 6 s))"

section \<open>Phone numbers\<close>

lemma char_eq_code: "(c = d) = ((of_char c :: nat) = of_char d)"
  by simp

lemma decimal_digit_iff: "decimal_digit c = (48 \<le> (of_char c :: nat) \<and> (of_char c :: nat) \<le> 57)"
proof -
  have "decimal_digit c = ((of_char c :: nat) \<in> {48, 49, 50, 51, 52, 53, 54, 55, 56, 57})"
    unfolding decimal_digit_def by (simp add: char_eq_code [of c])
  also have "\<dots> = (48 \<le> (of_char c :: nat) \<and> (of_char c :: nat) \<le> 57)"
    by (simp only: insert_iff empty_iff) arith
  finally show ?thesis .
qed

lemma decimal_digit_isdigit: "decimal_digit c \<Longrightarrow> isdigit_char c"
  by (simp add: decimal_digit_iff isdigit_char_def)

lemma ascii_isdigit: "(of_char c :: nat) < 128 \<Longrightarrow> isdigit_char c = decimal_digit c"
  by (auto simp: decimal_digit_iff isdigit_char_def Let_def)

lemma Phone_init_eq:
  "Phone_init s = (if length s = 10 \<and> list_all isdigit_char s then Inr (Phone s)
                   else Inl (ValueError ''Phone number must be 10 digits.''))"
  by (auto simp: Phone_init_def isdigit_def)

text \<open>
  Claim C2, as amended. Constructing a Phone from \<open>s\<close> succeeds exactly when \<open>s\<close> has
  length 10 and every character of \<open>s\<close> is a digit for \<open>str.isdigit\<close>; for a string of
  ASCII characters that is exactly when every character is a decimal digit. A Phone that
  is built holds \<open>s\<close> itself, and a construction that does not succeed raises the
  \<open>ValueError\<close> of the format and builds no Phone.
\<close>

theorem Phone_init_iff:
  "((\<exists>p. Phone_init s = Inr p) \<longleftrightarrow> length s = 10 \<and> list_all isdigit_char s) \<and>
   (list_all (\<lambda>c. (of_char c :: nat) < 128) s \<longrightarrow>
      ((\<exists>p. Phone_init s = Inr p) \<longleftrightarrow> length s = 10 \<and> list_all decimal_digit s)) \<and>
   (\<forall>p. Phone_init s = Inr p \<longrightarrow> p = Phone s) \<and>
   ((\<nexists>p. Phone_init s = Inr p) \<longrightarrow>
      Phone_init s = Inl (ValueError ''Phone number must be 10 digits.''))"
proof -
  have "list_all (\<lambda>c. (of_char c :: nat) < 128) s \<Longrightarrow> list_all isdigit_char s = list_all decimal_digit s"
    by (induction s) (auto simp: ascii_isdigit)
  then show ?thesis
    by (auto simp: Phone_init_eq)
qed

theorem Phone_init_iff_witness:
  "list_all (\<lambda>c. (of_char c :: nat) < 128) ''1234567890'' \<and>
   Phone_init ''1234567890'' = Inr (Phone ''1234567890'') \<and>
   Phone_init ''12345'' = Inl (ValueError ''Phone number must be 10 digits.'')"
proof -
  have a: "list_all (\<lambda>c. (of_char c :: nat) < 128) ''1234567890''" by simp
  have d: "length ''1234567890'' = 10 \<and> list_all decimal_digit ''1234567890''"
    by (simp add: decimal_digit_def)
  have n: "\<not> (length ''12345'' = 10 \<and> list_all isdigit_char ''12345'')" by simp
  from Phone_init_iff [of "''1234567890''"] a d
  have "Phone_init ''1234567890'' = Inr (Phone ''1234567890'')" by blast
  moreover from Phone_init_iff [of "''12345''"] n
  have "Phone_init ''12345'' = Inl (ValueError ''Phone number must be 10 digits.'')" by blast
  ultimately show ?thesis using a by blast
qed

text \<open>
  Claim C2 as stated fails: ten times the superscript two is a string of length 10 with
  no decimal digit in it, and the construction accepts it.
\<close>

theorem Phone_init_superscript_counterexample:
  "Phone_init (replicate 10 (CHR 0xB2)) = Inr (Phone (replicate 10 (CHR 0xB2))) \<and>
   \<not> (length (replicate 10 (CHR 0xB2)) = 10 \<and> list_all decimal_digit (replicate 10 (CHR 0xB2)))"
  by (simp add: Phone_init_eq isdigit_char_def decimal_digit_def list_all_iff)

section \<open>Stringification of fields\<close>

lemma Birthday_init_value: "Birthday_init s = Inr b \<Longrightarrow> value_attr b = s"
  by (auto simp: Birthday_init_def split: sum.splits error.splits)

lemma Field_str_Birthday: "Birthday_init s = Inr b \<Longrightarrow> Field_str (BirthdayField b) = Inr s"
  by (simp add: Field_str_def Birthday_init_value)

text \<open>
  Claim C6 says that the string of a Name, Phone or Birthday field is the text it was built
  from. That holds for a Birthday (lemma \<open>Field_str_Birthday\<close>). A Phone and a Name have
  no attribute \<open>value\<close>: for the Phone built from \<open>1234567890\<close> and the Name built from
  \<open>Alice\<close>, \<open>__str__\<close> raises \<open>AttributeError\<close>.
\<close>

theorem Field_str_Phone_raises:
  "Phone_init ''1234567890'' = Inr (Phone ''1234567890'') \<and>
   Field_str (PhoneField (Phone ''1234567890'')) =
     Inl (AttributeError (quoted ''Phone'' @ '' object has no attribute '' @ quoted ''value'')) \<and>
   Field_str (NameField (Name_init ''Alice'')) =
     Inl (AttributeError (quoted ''Name'' @ '' object has no attribute '' @ quoted ''value''))"
  by (simp add: Phone_init_eq isdigit_char_def Field_str_def Name_init_def)

theorem Field_str_Phone_raises_witness:
  "Field_str (PhoneField (Phone ''1234567890'')) \<noteq> Inr ''1234567890'' \<and>
   Field_str (NameField (Name_init ''Alice'')) \<noteq> Inr ''Alice''"
  using Field_str_Phone_raises by simp

section \<open>Editing a phone\<close>

lemma edit_loop_None: "(edit_loop ps old new = None) = (old \<notin> number ` set ps)"
  by (induction ps) auto

lemma edit_loop_Some:
  "old \<in> number ` set ps \<Longrightarrow>
   edit_loop ps old new =
     Some (takeWhile (\<lambda>p. number p \<noteq> old) ps @ Phone new # tl (dropWhile (\<lambda>p. number p \<noteq> old) ps))"
  by (induction ps) auto

lemma edit_phone_not_found:
  "old \<notin> number ` set (phones r) \<Longrightarrow>
   edit_phone r old new =
     Inl (ValueError (''Phone '' @ quoted old @ '' not found for contact ''
                      @ quoted (Name.name (name r)) @ ''.''))"
  using edit_loop_None [of "phones r" old new] by (simp add: edit_phone_def)

lemma edit_phone_first_match:
  "old \<in> number ` set (phones r) \<Longrightarrow>
   edit_phone r old new =
     Inr (r\<lparr>phones := takeWhile (\<lambda>p. number p \<noteq> old) (phones r) @ Phone new
                        # tl (dropWhile (\<lambda>p. number p \<noteq> old) (phones r))\<rparr>)"
  by (simp add: edit_phone_def edit_loop_Some)

text \<open>
  Claim C3 says that \<open>edit_phone\<close> validates the new number. The first phone equal to the
  old number is replaced and the others are kept (lemma \<open>edit_phone_first_match\<close>), and
  a missing old number raises (lemma \<open>edit_phone_not_found\<close>); yet the new number is
  stored as it is: \<open>abc\<close>, which \<open>Phone\<close> rejects, is accepted here.
\<close>

theorem edit_phone_stores_invalid_number:
  "Phone_init ''abc'' = Inl (ValueError ''Phone number must be 10 digits.'') \<and>
   edit_phone \<lparr>name = Name ''Bob'', phones = [Phone ''1111111111'', Phone ''2222222222''], birthday = None\<rparr>
      ''1111111111'' ''abc''
     = Inr \<lparr>name = Name ''Bob'', phones = [Phone ''abc'', Phone ''2222222222''], birthday = None\<rparr>"
  by (simp add: Phone_init_eq edit_phone_def)

theorem edit_phone_stores_invalid_number_witness:
  "edit_phone \<lparr>name = Name ''Bob'', phones = [Phone ''1111111111'', Phone ''2222222222''], birthday = None\<rparr>
      ''1111111111'' ''abc''
     \<noteq> Inl (ValueError ''Phone number must be 10 digits.'')"
  using edit_phone_stores_invalid_number by simp

section \<open>The directory\<close>

lemma update_absent: "map_of al k = None \<Longrightarrow> AList.update k v al = al @ [(k, v)]"
  by (induction al) (auto split: if_splits)

lemma keys_are_names_update:
  "keys_are_names data \<Longrightarrow> Name.name (name r) = k \<Longrightarrow> keys_are_names (AList.update k r data)"
  by (induction data) (auto simp: keys_are_names_def)

lemma keys_are_names_delete:
  "keys_are_names data \<Longrightarrow> keys_are_names (AList.delete k data)"
  by (induction data) (auto simp: keys_are_names_def)

lemma keys_are_names_lookup:
  "keys_are_names data \<Longrightarrow> map_of data k = Some r \<Longrightarrow> Name.name (name r) = k"
  by (induction data) (auto simp: keys_are_names_def split: if_splits)

text \<open>
  Claim C8. For a phone string that \<open>Phone\<close> accepts, \<open>add_phone\<close> of the directory never
  fails: when the name is present the phone is appended to the phones of its record, when
  it is absent a new record with that name and exactly that one phone is put at the end
  of the directory; the records under other names stay as they are.
\<close>

theorem AddressBook_add_phone_upsert:
  assumes "Phone_init phone = Inr p"
  shows "(\<forall>record. find_record data name' = Some record \<longrightarrow>
            AddressBook_add_phone data name' phone
              = Inr (AList.update name' (record\<lparr>phones := phones record @ [p]\<rparr>) data)) \<and>
         (find_record data name' = None \<longrightarrow>
            AddressBook_add_phone data name' phone
              = Inr (data @ [(name', \<lparr>name = Name name', phones = [p], birthday = None\<rparr>)])) \<and>
         (\<exists>data'. AddressBook_add_phone data name' phone = Inr data' \<and>
            (\<exists>record'. find_record data' name' = Some record' \<and>
               phones record' = (case find_record data name' of None \<Rightarrow> [] | Some record \<Rightarrow> phones record) @ [p]) \<and>
            (\<forall>other. other \<noteq> name' \<longrightarrow> find_record data' other = find_record data other)) \<and>
         p = Phone phone"
proof -
  have p: "p = Phone phone"
    using assms by (auto simp: Phone_init_eq split: if_splits)
  define r' where "r' = (case find_record data name' of
      None \<Rightarrow> \<lparr>name = Name name', phones = [p], birthday = None\<rparr>
    | Some record \<Rightarrow> record\<lparr>phones := phones record @ [p]\<rparr>)"
  have upd: "AddressBook_add_phone data name' phone = Inr (AList.update name' r' data)"
    using assms
    by (simp add: AddressBook_add_phone_def Record_add_phone_def Record_init_def Name_init_def
        add_record_def r'_def split: option.splits)
  have look: "find_record (AList.update name' r' data) other
      = (if other = name' then Some r' else find_record data other)" for other
    by (simp add: find_record_def update_conv')
  have ph: "phones r' = (case find_record data name' of None \<Rightarrow> [] | Some record \<Rightarrow> phones record) @ [p]"
    by (simp add: r'_def split: option.splits)
  have absent: "find_record data name' = None \<Longrightarrow>
      AList.update name' r' data = data @ [(name', \<lparr>name = Name name', phones = [p], birthday = None\<rparr>)]"
    by (simp add: find_record_def update_absent r'_def)
  have present: "find_record data name' = Some rc \<Longrightarrow>
      r' = rc\<lparr>phones := phones rc @ [p]\<rparr>" for rc
    by (simp add: r'_def)
  show ?thesis
    using upd look ph absent present p by auto
qed

theorem AddressBook_add_phone_upsert_witness:
  "Phone_init ''5555555555'' = Inr (Phone ''5555555555'') \<and>
   find_record [] ''Alice'' = None \<and>
   AddressBook_add_phone [] ''Alice'' ''5555555555''
     = Inr [(''Alice'', \<lparr>name = Name ''Alice'', phones = [Phone ''5555555555''], birthday = None\<rparr>)]"
proof -
  have h: "Phone_init ''5555555555'' = Inr (Phone ''5555555555'')"
    by (simp add: Phone_init_eq isdigit_char_def)
  have n: "find_record [] ''Alice'' = None" by (simp add: find_record_def)
  from AddressBook_add_phone_upsert [OF h, of "[]" "''Alice''"] n h show ?thesis by simp
qed

lemma remove_phone_absent:
  "phone \<notin> number ` set (phones record) \<Longrightarrow> remove_phone record phone = record"
proof -
  assume "phone \<notin> number ` set (phones record)"
  then have "filter (\<lambda>p. number p \<noteq> phone) (phones record) = phones record"
    by (induction "phones record") (auto simp: filter_id_conv)
  then show ?thesis by (simp add: remove_phone_def)
qed

text \<open>
  Claim C9. \<open>delete_phone\<close> of the directory fails exactly when the name is absent, and
  then with the \<open>KeyError\<close> of a contact not found; when the name is present and none of
  its phones is the given one, it succeeds and the directory, so the record with its
  phones and its birthday, is unchanged.
\<close>

theorem delete_phone_not_found_iff:
  "((\<exists>e. delete_phone data name' phone = Inl e) \<longleftrightarrow> find_record data name' = None) \<and>
   (find_record data name' = None \<longrightarrow>
      delete_phone data name' phone
        = Inl (KeyError (''Contact '' @ quoted name' @ '' not found in the address book.''))) \<and>
   (\<forall>record. find_record data name' = Some record \<and> phone \<notin> number ` set (phones record) \<longrightarrow>
      delete_phone data name' phone = Inr data)"
  by (auto simp: delete_phone_def find_record_def remove_phone_absent update_triv split: option.splits)

theorem delete_phone_not_found_iff_witness:
  "find_record [] ''Bob'' = None \<and>
   delete_phone [] ''Bob'' ''1111111111''
     = Inl (KeyError (''Contact '' @ quoted ''Bob'' @ '' not found in the address book.'')) \<and>
   find_record [(''Ann'', \<lparr>name = Name ''Ann'', phones = [Phone ''2222222222''], birthday = None\<rparr>)] ''Ann''
     = Some \<lparr>name = Name ''Ann'', phones = [Phone ''2222222222''], birthday = None\<rparr> \<and>
   delete_phone [(''Ann'', \<lparr>name = Name ''Ann'', phones = [Phone ''2222222222''], birthday = None\<rparr>)]
       ''Ann'' ''1111111111''
     = Inr [(''Ann'', \<lparr>name = Name ''Ann'', phones = [Phone ''2222222222''], birthday = None\<rparr>)]"
proof -
  let ?r = "\<lparr>name = Name ''Ann'', phones = [Phone ''2222222222''], birthday = None\<rparr>"
  have a: "find_record [] ''Bob'' = None" by (simp add: find_record_def)
  have b: "find_record [(''Ann'', ?r)] ''Ann'' = Some ?r" by (simp add: find_record_def)
  have c: "''1111111111'' \<notin> number ` set (phones ?r)" by simp
  from delete_phone_not_found_iff [of "[]" "''Bob''" "''1111111111''"] a
  have 1: "delete_phone [] ''Bob'' ''1111111111''
     = Inl (KeyError (''Contact '' @ quoted ''Bob'' @ '' not found in the address book.''))" by blast
  from delete_phone_not_found_iff [of "[(''Ann'', ?r)]" "''Ann''" "''1111111111''"] b c
  have 2: "delete_phone [(''Ann'', ?r)] ''Ann'' ''1111111111'' = Inr [(''Ann'', ?r)]" by blast
  from a b 1 2 show ?thesis by blast
qed

lemma apply_operation_keys_are_names:
  assumes "keys_are_names data" and "apply_operation data operation = Inr data'"
  shows "keys_are_names data'"
proof (cases operation)
  case (AddRecord r)
  then show ?thesis using assms by (auto simp: add_record_def keys_are_names_update)
next
  case (DeleteRecord n)
  then show ?thesis using assms
    by (auto simp: delete_record_def keys_are_names_delete split: option.splits)
next
  case (AddPhone n ph)
  then show ?thesis using assms
    by (auto simp: AddressBook_add_phone_def Record_add_phone_def Record_init_def Name_init_def
        add_record_def find_record_def
        intro!: keys_are_names_update dest: keys_are_names_lookup split: option.splits sum.splits)
next
  case (DeletePhone n ph)
  then show ?thesis using assms
    by (auto simp: delete_phone_def remove_phone_def find_record_def
        intro!: keys_are_names_update dest: keys_are_names_lookup split: option.splits)
next
  case (ChangePhone n old new)
  then show ?thesis using assms
    by (auto simp: change_phone_def edit_phone_def find_record_def
        intro!: keys_are_names_update dest: keys_are_names_lookup split: option.splits sum.splits)
next
  case (AddBirthday n b)
  then show ?thesis using assms
    by (auto simp: AddressBook_add_birthday_def Record_add_birthday_def find_record_def
        intro!: keys_are_names_update dest: keys_are_names_lookup split: option.splits sum.splits)
qed

text \<open>
  Claim C10. The empty directory satisfies the invariant that every key is the name of
  its record, and from any directory that satisfies it (the empty one, or a loaded one)
  every sequence of the operations \<open>add_record\<close>, \<open>delete_record\<close>, \<open>add_phone\<close>,
  \<open>delete_phone\<close>, \<open>change_phone\<close> and \<open>add_birthday\<close> leads to a directory that
  satisfies it.
\<close>

theorem keys_are_names_invariant:
  "keys_are_names [] \<and> (keys_are_names data \<longrightarrow> keys_are_names (run_operations data operations))"
proof -
  have "keys_are_names data \<Longrightarrow> keys_are_names (run_operations data operations)"
  proof (induction operations arbitrary: data)
    case Nil
    then show ?case by simp
  next
    case (Cons operation rest)
    show ?case
    proof (cases "apply_operation data operation")
      case (Inl e)
      then show ?thesis using Cons by simp
    next
      case (Inr data')
      then have "keys_are_names data'"
        using Cons.prems apply_operation_keys_are_names by blast
      then show ?thesis using Cons.IH Inr by simp
    qed
  qed
  then show ?thesis by (simp add: keys_are_names_def)
qed

theorem keys_are_names_invariant_witness:
  "keys_are_names [] \<and>
   keys_are_names (run_operations []
     [AddPhone ''Alice'' ''5555555555'', ChangePhone ''Alice'' ''5555555555'' ''7777777777'',
      DeleteRecord ''Bob''])"
proof -
  have h: "keys_are_names []" by (simp add: keys_are_names_def)
  from keys_are_names_invariant [of "[]"
      "[AddPhone ''Alice'' ''5555555555'', ChangePhone ''Alice'' ''5555555555'' ''7777777777'',
        DeleteRecord ''Bob'']"] h
  show ?thesis by blast
qed

section \<open>Ordinals and dates\<close>

text \<open>
  The ordinal of the date that \<open>ord2ymd\<close> builds from an ordinal is that ordinal: adding
  days to a date moves its ordinal, and so its weekday, by that many days.
\<close>

lemma DI_values: "DI400Y = 146097" "DI100Y = 36524" "DI4Y = 1461"
  by (simp_all add: DI400Y_def DI100Y_def DI4Y_def days_before_year_def)

lemma div_decomp: "0 \<le> r \<Longrightarrow> r < k \<Longrightarrow> (k * x + r) div k = (x::int)"
  by (simp add: div_pos_pos_trivial)

lemma mod_decomp: "0 \<le> r \<Longrightarrow> r < k \<Longrightarrow> (k * x + r) mod k = (r::int)"
  by (simp add: mod_pos_pos_trivial)

lemma year_divs:
  fixes q a b c :: int
  assumes "0 \<le> a" "a \<le> 3" "0 \<le> b" "b \<le> 24" "0 \<le> c" "c \<le> 3"
  shows "(400 * q + 100 * a + 4 * b + c) div 4 = 100 * q + 25 * a + b"
    and "(400 * q + 100 * a + 4 * b + c) div 100 = 4 * q + a"
    and "(400 * q + 100 * a + 4 * b + c) div 400 = q"
proof -
  have "400 * q + 100 * a + 4 * b + c = 4 * (100 * q + 25 * a + b) + c" by simp
  then show "(400 * q + 100 * a + 4 * b + c) div 4 = 100 * q + 25 * a + b"
    using div_decomp [of c 4 "100 * q + 25 * a + b"] assms by simp
  have "400 * q + 100 * a + 4 * b + c = 100 * (4 * q + a) + (4 * b + c)" by simp
  then show "(400 * q + 100 * a + 4 * b + c) div 100 = 4 * q + a"
    using div_decomp [of "4 * b + c" 100 "4 * q + a"] assms by simp
  have "400 * q + 100 * a + 4 * b + c = 400 * q + (100 * a + 4 * b + c)" by simp
  then show "(400 * q + 100 * a + 4 * b + c) div 400 = q"
    using div_decomp [of "100 * a + 4 * b + c" 400 q] assms by simp
qed

lemma days_before_year_cycles:
  fixes q a b c :: int
  assumes "0 \<le> a" "a \<le> 3" "0 \<le> b" "b \<le> 24" "0 \<le> c" "c \<le> 3"
  shows "days_before_year (400 * q + 100 * a + 4 * b + c + 1)
         = 146097 * q + 36524 * a + 1461 * b + 365 * c"
  using year_divs [OF assms, of q] by (simp add: days_before_year_def Let_def)

lemma is_leap_cycles:
  fixes q a b c :: int
  assumes "0 \<le> a" "a \<le> 3" "0 \<le> b" "b \<le> 24" "0 \<le> c" "c \<le> 3"
  shows "is_leap (400 * q + 100 * a + 4 * b + c + 1) = (c = 3 \<and> (b \<noteq> 24 \<or> a = 3))"
proof (cases "c = 3")
  case False
  have e: "400 * q + 100 * a + 4 * b + c + 1 = 4 * (100 * q + 25 * a + b) + (c + 1)" by simp
  have "(4 * (100 * q + 25 * a + b) + (c + 1)) mod 4 = c + 1"
    by (rule mod_decomp) (use assms False in auto)
  then have "(400 * q + 100 * a + 4 * b + c + 1) mod 4 = c + 1"
    unfolding e .
  then show ?thesis using False assms by (simp add: is_leap_def)
next
  case c: True
  have e: "400 * q + 100 * a + 4 * b + c + 1 = 4 * (100 * q + 25 * a + b + 1)"
    using c by simp
  have m4: "(400 * q + 100 * a + 4 * b + c + 1) mod 4 = 0"
    unfolding e by simp
  show ?thesis
  proof (cases "b = 24")
    case False
    have e: "400 * q + 100 * a + 4 * b + c + 1 = 100 * (4 * q + a) + (4 * b + 4)"
      using c by simp
    have "(100 * (4 * q + a) + (4 * b + 4)) mod 100 = 4 * b + 4"
      by (rule mod_decomp) (use assms False in auto)
    then have "(400 * q + 100 * a + 4 * b + c + 1) mod 100 = 4 * b + 4"
      unfolding e .
    then show ?thesis using False c m4 assms by (simp add: is_leap_def)
  next
    case b: True
    have e: "400 * q + 100 * a + 4 * b + c + 1 = 100 * (4 * q + a + 1)"
      using c b by simp
    have m100: "(400 * q + 100 * a + 4 * b + c + 1) mod 100 = 0"
      unfolding e by simp
    show ?thesis
    proof (cases "a = 3")
      case True
      have e: "400 * q + 100 * a + 4 * b + c + 1 = 400 * (q + 1)"
        using c b True by simp
      have "(400 * q + 100 * a + 4 * b + c + 1) mod 400 = 0"
        unfolding e by simp
      then show ?thesis using True c b m4 by (simp add: is_leap_def)
    next
      case False
      have e: "400 * q + 100 * a + 4 * b + c + 1 = 400 * q + (100 * a + 100)"
        using c b by simp
      have "(400 * q + (100 * a + 100)) mod 400 = 100 * a + 100"
        by (rule mod_decomp) (use assms False in auto)
      then have "(400 * q + 100 * a + 4 * b + c + 1) mod 400 = 100 * a + 100"
        unfolding e .
      then show ?thesis using False c b m4 m100 assms by (simp add: is_leap_def)
    qed
  qed
qed

lemma month_estimate:
  fixes n :: int
  assumes "0 \<le> n" "n < 365"
  shows "(n + 50) div 32 \<in> {1, 2, 3, 4, 5, 6, 7, 8, 9, 10, 11, 12}"
proof -
  define q where "q = (n + 50) div 32"
  define r where "r = (n + 50) mod 32"
  have "n + 50 = 32 * q + r" "0 \<le> r" "r < 32"
    by (simp_all add: q_def r_def)
  with assms have "1 \<le> q \<and> q \<le> 12" by linarith
  then show ?thesis unfolding q_def [symmetric] by (simp only: insert_iff empty_iff) arith
qed

lemma ord2ymd_month:
  fixes r y :: int
  assumes "0 \<le> r" "r < 365" "is_leap y = leapyear"
  shows "toordinal
           (let m = (r + 50) div 32;
                preceding = DAYS_BEFORE_MONTH ! nat m + (if m > 2 \<and> leapyear then 1 else 0)
            in if preceding > r
               then let m = m - 1;
                        preceding = preceding
                          - (DAYS_IN_MONTH ! nat m + (if m = 2 \<and> leapyear then 1 else 0))
                    in Date y m (r - preceding + 1)
               else Date y m (r - preceding + 1))
         = days_before_year y + r + 1"
  using month_estimate [OF assms(1,2)] assms
  by (elim insertE emptyE)
     (simp_all add: Let_def toordinal_def ymd2ord_def days_before_month_def
        DAYS_BEFORE_MONTH_def DAYS_IN_MONTH_def)

lemma toordinal_ord2ymd: "toordinal (ord2ymd n) = n"
proof -
  define n0 where "n0 = n - 1"
  define n400 where "n400 = n0 div 146097"
  define r400 where "r400 = n0 mod 146097"
  define n100 where "n100 = r400 div 36524"
  define r100 where "r100 = r400 mod 36524"
  define n4 where "n4 = r100 div 1461"
  define r4 where "r4 = r100 mod 1461"
  define n1 where "n1 = r4 div 365"
  define r1 where "r1 = r4 mod 365"
  define y where "y = n400 * 400 + 1 + n100 * 100 + n4 * 4 + n1"
  define leapyear where "leapyear = (n1 = 3 \<and> (n4 \<noteq> 24 \<or> n100 = 3))"
  have e: "n0 = 146097 * n400 + r400" "r400 = 36524 * n100 + r100"
    "r100 = 1461 * n4 + r4" "r4 = 365 * n1 + r1"
    by (simp_all add: n400_def r400_def n100_def r100_def n4_def r4_def n1_def r1_def)
  have b: "0 \<le> r400" "r400 < 146097" "0 \<le> r100" "r100 < 36524" "0 \<le> r4" "r4 < 1461"
    "0 \<le> r1" "r1 < 365"
    by (simp_all add: r400_def r100_def r4_def r1_def)
  have q: "0 \<le> n100" "n100 \<le> 4" "0 \<le> n4" "n4 \<le> 24" "0 \<le> n1" "n1 \<le> 4"
    using e b by linarith+
  have o: "ord2ymd n =
     (if n1 = 4 \<or> n100 = 4 then Date (y - 1) 12 31
      else
        let m = (r1 + 50) div 32;
            preceding = DAYS_BEFORE_MONTH ! nat m + (if m > 2 \<and> leapyear then 1 else 0)
        in if preceding > r1
           then let m = m - 1;
                    preceding = preceding
                      - (DAYS_IN_MONTH ! nat m + (if m = 2 \<and> leapyear then 1 else 0))
                in Date y m (r1 - preceding + 1)
           else Date y m (r1 - preceding + 1))"
    unfolding ord2ymd_def DI_values Let_def
      y_def leapyear_def r1_def n1_def r4_def n4_def r100_def n100_def r400_def n400_def n0_def
    by (rule refl)
  have y_eq: "y = 400 * n400 + 100 * n100 + 4 * n4 + n1 + 1"
    by (simp add: y_def)
  show ?thesis
  proof (cases "n1 = 4 \<or> n100 = 4")
    case False
    then have s: "n100 \<le> 3" "n1 \<le> 3" using q by linarith+
    have d: "days_before_year y = 146097 * n400 + 36524 * n100 + 1461 * n4 + 365 * n1"
      unfolding y_eq by (rule days_before_year_cycles) (use q s in auto)
    have l: "is_leap y = leapyear"
      unfolding y_eq leapyear_def by (rule is_leap_cycles) (use q s in auto)
    have "toordinal (ord2ymd n) = days_before_year y + r1 + 1"
      unfolding o using False ord2ymd_month [OF b(7,8) l] by simp
    then show ?thesis using d e by (simp add: n0_def)
  next
    case True
    then have o': "ord2ymd n = Date (y - 1) 12 31" unfolding o by simp
    show ?thesis
    proof (cases "n100 = 4")
      case True
      then have z: "r100 = 0" "n4 = 0" "r4 = 0" "n1 = 0" "r1 = 0"
        using e b q by linarith+
      have y1: "y - 1 = 400 * n400 + 100 * 3 + 4 * 24 + 3 + 1"
        unfolding y_eq using True z by simp
      have d: "days_before_year (y - 1) = 146097 * n400 + 36524 * 3 + 1461 * 24 + 365 * 3"
        unfolding y1 by (rule days_before_year_cycles) auto
      have l: "is_leap (y - 1)"
        unfolding y1 by (subst is_leap_cycles) auto
      have "toordinal (Date (y - 1) 12 31) = days_before_year (y - 1) + 366"
        using l by (simp add: toordinal_def ymd2ord_def days_before_month_def DAYS_BEFORE_MONTH_def)
      then show ?thesis unfolding o' using d e True z by (simp add: n0_def)
    next
      case False
      with True have n1: "n1 = 4" by simp
      from False q have s: "n100 \<le> 3" by linarith
      have z: "r1 = 0" "n4 \<le> 23" using e b q n1 s by linarith+
      have y1: "y - 1 = 400 * n400 + 100 * n100 + 4 * n4 + 3 + 1"
        unfolding y_eq using n1 by simp
      have d: "days_before_year (y - 1) = 146097 * n400 + 36524 * n100 + 1461 * n4 + 365 * 3"
        unfolding y1 by (rule days_before_year_cycles) (use q s z in auto)
      have l: "is_leap (y - 1)"
        unfolding y1 by (subst is_leap_cycles) (use q s z in auto)
      have "toordinal (Date (y - 1) 12 31) = days_before_year (y - 1) + 366"
        using l by (simp add: toordinal_def ymd2ord_def days_before_month_def DAYS_BEFORE_MONTH_def)
      then show ?thesis unfolding o' using d e n1 z by (simp add: n0_def)
    qed
  qed
qed

lemma add_days_toordinal: "add_days d n = Inr q \<Longrightarrow> toordinal q = toordinal d + n"
  by (auto simp: add_days_def Let_def toordinal_ord2ymd split: if_splits)

lemma add_days_weekday: "add_days d n = Inr q \<Longrightarrow> weekday q = (weekday d + n) mod 7"
proof -
  assume "add_days d n = Inr q"
  then have "toordinal q = toordinal d + n" by (rule add_days_toordinal)
  then have "weekday q = ((toordinal d + 6) + n) mod 7"
    by (simp add: weekday_def ac_simps)
  also have "\<dots> = ((toordinal d + 6) mod 7 + n) mod 7"
    by (rule mod_add_left_eq [symmetric])
  finally show ?thesis by (simp add: weekday_def)
qed

section \<open>Upcoming birthdays: the weekend shift\<close>

lemma upcoming_loop_entries:
  "upcoming_loop rs days today acc = Inr out \<Longrightarrow>
   \<exists>new. out = acc @ new \<and>
     list_all2 (\<lambda>record entry.
        fst entry = Name.name (name record) \<and>
        (\<exists>b p. birthday record = Some b \<and> projected (date b) today = Inr p \<and>
           (weekday p = 5 \<longrightarrow> (\<exists>q. add_days p 2 = Inr q \<and> snd entry = strftime q)) \<and>
           (weekday p = 6 \<longrightarrow> (\<exists>q. add_days p 1 = Inr q \<and> snd entry = strftime q)) \<and>
           (weekday p \<noteq> 5 \<and> weekday p \<noteq> 6 \<longrightarrow> snd entry = strftime p)))
       (filter (in_window days today) rs) new"
proof (induction rs arbitrary: acc)
  case Nil
  then show ?case by simp
next
  case (Cons r rest)
  show ?case
  proof (cases "birthday r")
    case None
    then show ?thesis using Cons by (simp add: in_window_def)
  next
    case (Some b)
    show ?thesis
    proof (cases "projected (date b) today")
      case (Inl e)
      then show ?thesis using Cons.prems Some by simp
    next
      case (Inr p)
      show ?thesis
      proof (cases "sub_days p today \<le> days")
        case False
        then show ?thesis using Cons Some Inr by (simp add: in_window_def)
      next
        case True
        define c where "c = (if weekday p = 5 then add_days p 2
                        else if weekday p = 6 then add_days p 1 else Inr p)"
        show ?thesis
        proof (cases c)
          case (Inl e)
          then show ?thesis using Cons.prems Some Inr True by (simp add: c_def)
        next
          case cq: (Inr q)
          then have "upcoming_loop rest days today (acc @ [(Name.name (name r), strftime q)]) = Inr out"
            using Cons.prems Some Inr True by (simp add: c_def)
          from Cons.IH [OF this] obtain new where
            new: "out = (acc @ [(Name.name (name r), strftime q)]) @ new"
              "list_all2 (\<lambda>record entry.
        fst entry = Name.name (name record) \<and>
        (\<exists>b p. birthday record = Some b \<and> projected (date b) today = Inr p \<and>
           (weekday p = 5 \<longrightarrow> (\<exists>q. add_days p 2 = Inr q \<and> snd entry = strftime q)) \<and>
           (weekday p = 6 \<longrightarrow> (\<exists>q. add_days p 1 = Inr q \<and> snd entry = strftime q)) \<and>
           (weekday p \<noteq> 5 \<and> weekday p \<noteq> 6 \<longrightarrow> snd entry = strftime p)))
       (filter (in_window days today) rest) new"
            by blast
          have w: "in_window days today r"
            using Some Inr True by (simp add: in_window_def)
          have e: "(weekday p = 5 \<longrightarrow> (\<exists>q'. add_days p 2 = Inr q' \<and> strftime q = strftime q')) \<and>
           (weekday p = 6 \<longrightarrow> (\<exists>q'. add_days p 1 = Inr q' \<and> strftime q = strftime q')) \<and>
           (weekday p \<noteq> 5 \<and> weekday p \<noteq> 6 \<longrightarrow> strftime q = strftime p)"
            using cq by (auto simp: c_def split: if_splits)
          show ?thesis
            apply (rule exI [of _ "(Name.name (name r), strftime q) # new"])
            using new w e Some Inr by simp
        qed
      qed
    qed
  qed
qed

text \<open>
  Claim C4. When the computation returns, its entries are, in order, those of the included
  records, and for each of them, with \<open>p\<close> the projected birthday: when \<open>p\<close> is a
  Saturday (weekday 5, counting from Monday as 0) the date emitted is \<open>p\<close> plus 2 days,
  when \<open>p\<close> is a Sunday (weekday 6) it is \<open>p\<close> plus 1 day, and otherwise it is \<open>p\<close>.
  The date \<open>q\<close> emitted for a Saturday or a Sunday is that many days later by its
  ordinal, and is a Monday.
\<close>

theorem weekend_shift:
  assumes "get_upcoming_birthdays address_book days today = Inr out"
  shows "list_all2 (\<lambda>record entry.
        fst entry = Name.name (name record) \<and>
        (\<exists>b p. birthday record = Some b \<and> projected (date b) today = Inr p \<and>
           (weekday p = 5 \<longrightarrow>
              (\<exists>q. add_days p 2 = Inr q \<and> toordinal q = toordinal p + 2 \<and> weekday q = 0 \<and>
                   snd entry = strftime q)) \<and>
           (weekday p = 6 \<longrightarrow>
              (\<exists>q. add_days p 1 = Inr q \<and> toordinal q = toordinal p + 1 \<and> weekday q = 0 \<and>
                   snd entry = strftime q)) \<and>
           (weekday p \<noteq> 5 \<and> weekday p \<noteq> 6 \<longrightarrow> snd entry = strftime p)))
       (filter (in_window days today) (map snd address_book)) out"
proof -
  have "list_all2 (\<lambda>record entry.
        fst entry = Name.name (name record) \<and>
        (\<exists>b p. birthday record = Some b \<and> projected (date b) today = Inr p \<and>
           (weekday p = 5 \<longrightarrow> (\<exists>q. add_days p 2 = Inr q \<and> snd entry = strftime q)) \<and>
           (weekday p = 6 \<longrightarrow> (\<exists>q. add_days p 1 = Inr q \<and> snd entry = strftime q)) \<and>
           (weekday p \<noteq> 5 \<and> weekday p \<noteq> 6 \<longrightarrow> snd entry = strftime p)))
       (filter (in_window days today) (map snd address_book)) out"
    using upcoming_loop_entries [of "map snd address_book" days today "[]" out] assms
    by (simp add: get_upcoming_birthdays_def)
  then show ?thesis
  proof (rule list_all2_mono)
    fix r :: Record and entry :: "string \<times> string"
    assume "fst entry = Name.name (name r) \<and>
        (\<exists>b p. birthday r = Some b \<and> projected (date b) today = Inr p \<and>
           (weekday p = 5 \<longrightarrow> (\<exists>q. add_days p 2 = Inr q \<and> snd entry = strftime q)) \<and>
           (weekday p = 6 \<longrightarrow> (\<exists>q. add_days p 1 = Inr q \<and> snd entry = strftime q)) \<and>
           (weekday p \<noteq> 5 \<and> weekday p \<noteq> 6 \<longrightarrow> snd entry = strftime p))"
    then obtain b p where n: "fst entry = Name.name (name r)"
      and bp: "birthday r = Some b" "projected (date b) today = Inr p"
      and sat: "weekday p = 5 \<longrightarrow> (\<exists>q. add_days p 2 = Inr q \<and> snd entry = strftime q)"
      and sun: "weekday p = 6 \<longrightarrow> (\<exists>q. add_days p 1 = Inr q \<and> snd entry = strftime q)"
      and wk: "weekday p \<noteq> 5 \<and> weekday p \<noteq> 6 \<longrightarrow> snd entry = strftime p"
      by blast
    have sat': "weekday p = 5 \<longrightarrow>
        (\<exists>q. add_days p 2 = Inr q \<and> toordinal q = toordinal p + 2 \<and> weekday q = 0 \<and>
             snd entry = strftime q)"
    proof
      assume w: "weekday p = 5"
      with sat obtain q where q: "add_days p 2 = Inr q" "snd entry = strftime q" by blast
      have "toordinal q = toordinal p + 2" using q(1) by (rule add_days_toordinal)
      moreover have "weekday q = 0" using add_days_weekday [OF q(1)] w by simp
      ultimately show "\<exists>q. add_days p 2 = Inr q \<and> toordinal q = toordinal p + 2 \<and>
          weekday q = 0 \<and> snd entry = strftime q"
        using q by blast
    qed
    have sun': "weekday p = 6 \<longrightarrow>
        (\<exists>q. add_days p 1 = Inr q \<and> toordinal q = toordinal p + 1 \<and> weekday q = 0 \<and>
             snd entry = strftime q)"
    proof
      assume w: "weekday p = 6"
      with sun obtain q where q: "add_days p 1 = Inr q" "snd entry = strftime q" by blast
      have "toordinal q = toordinal p + 1" using q(1) by (rule add_days_toordinal)
      moreover have "weekday q = 0" using add_days_weekday [OF q(1)] w by simp
      ultimately show "\<exists>q. add_days p 1 = Inr q \<and> toordinal q = toordinal p + 1 \<and>
          weekday q = 0 \<and> snd entry = strftime q"
        using q by blast
    qed
    from n bp sat' sun' wk
    show "fst entry = Name.name (name r) \<and>
        (\<exists>b p. birthday r = Some b \<and> projected (date b) today = Inr p \<and>
           (weekday p = 5 \<longrightarrow>
              (\<exists>q. add_days p 2 = Inr q \<and> toordinal q = toordinal p + 2 \<and> weekday q = 0 \<and>
                   snd entry = strftime q)) \<and>
           (weekday p = 6 \<longrightarrow>
              (\<exists>q. add_days p 1 = Inr q \<and> toordinal q = toordinal p + 1 \<and> weekday q = 0 \<and>
                   snd entry = strftime q)) \<and>
           (weekday p \<noteq> 5 \<and> weekday p \<noteq> 6 \<longrightarrow> snd entry = strftime p))"
      by blast
  qed
qed

theorem weekend_shift_witness:
  "get_upcoming_birthdays
     [(''Ann'', \<lparr>name = Name ''Ann'', phones = [], birthday = Some (Birthday (Date 1990 6 15) ''15.06.1990'')\<rparr>),
      (''Bob'', \<lparr>name = Name ''Bob'', phones = [], birthday = Some (Birthday (Date 1990 6 8) ''08.06.1990'')\<rparr>)]
     7 (Date 2024 6 10) = Inr [(''Ann'', ''2024.06.17'')] \<and>
   projected (Date 1990 6 15) (Date 2024 6 10) = Inr (Date 2024 6 15) \<and>
   weekday (Date 2024 6 15) = 5 \<and>
   add_days (Date 2024 6 15) 2 = Inr (Date 2024 6 17) \<and>
   weekday (Date 2024 6 17) = 0 \<and>
   list_all2 (\<lambda>record entry.
        fst entry = Name.name (name record) \<and>
        (\<exists>b p. birthday record = Some b \<and> projected (date b) (Date 2024 6 10) = Inr p \<and>
           (weekday p = 5 \<longrightarrow>
              (\<exists>q. add_days p 2 = Inr q \<and> toordinal q = toordinal p + 2 \<and> weekday q = 0 \<and>
                   snd entry = strftime q)) \<and>
           (weekday p = 6 \<longrightarrow>
              (\<exists>q. add_days p 1 = Inr q \<and> toordinal q = toordinal p + 1 \<and> weekday q = 0 \<and>
                   snd entry = strftime q)) \<and>
           (weekday p \<noteq> 5 \<and> weekday p \<noteq> 6 \<longrightarrow> snd entry = strftime p)))
     (filter (in_window 7 (Date 2024 6 10)) (map snd
     [(''Ann'', \<lparr>name = Name ''Ann'', phones = [], birthday = Some (Birthday (Date 1990 6 15) ''15.06.1990'')\<rparr>),
      (''Bob'', \<lparr>name = Name ''Bob'', phones = [], birthday = Some (Birthday (Date 1990 6 8) ''08.06.1990'')\<rparr>)]))
     [(''Ann'', ''2024.06.17'')]"
proof -
  have h: "get_upcoming_birthdays
     [(''Ann'', \<lparr>name = Name ''Ann'', phones = [], birthday = Some (Birthday (Date 1990 6 15) ''15.06.1990'')\<rparr>),
      (''Bob'', \<lparr>name = Name ''Bob'', phones = [], birthday = Some (Birthday (Date 1990 6 8) ''08.06.1990'')\<rparr>)]
     7 (Date 2024 6 10) = Inr [(''Ann'', ''2024.06.17'')]"
    by code_simp
  have p: "projected (Date 1990 6 15) (Date 2024 6 10) = Inr (Date 2024 6 15)"
    by code_simp
  have w: "weekday (Date 2024 6 15) = 5"
    by code_simp
  have a: "add_days (Date 2024 6 15) 2 = Inr (Date 2024 6 17)"
    by code_simp
  have m: "weekday (Date 2024 6 17) = 0"
    by code_simp
  from weekend_shift [OF h] h p w a m show ?thesis by blast
qed

section \<open>Upcoming birthdays: a birthday on the 29th of February\<close>

text \<open>
  Away from that day the computation does return: when no stored birthday is a 29th of
  February and \<open>today\<close> is a date before the year 9998, every projection is a date and
  no shift leaves the range of dates. And a list that is returned is empty when no record
  is included.
\<close>

lemma month_cases:
  "1 \<le> m \<Longrightarrow> m \<le> 12 \<Longrightarrow> (m::int) \<in> {1, 2, 3, 4, 5, 6, 7, 8, 9, 10, 11, 12}"
  by (simp only: insert_iff empty_iff) arith

lemma replace_year_valid:
  assumes "valid_date d" "\<not> leap_day d" "1 \<le> y" "y \<le> 9999"
  shows "replace_year d y = Inr (Date y (month d) (day d))"
proof -
  have m: "month d \<in> {1, 2, 3, 4, 5, 6, 7, 8, 9, 10, 11, 12}"
    by (rule month_cases) (use assms(1) in \<open>simp_all add: valid_date_def\<close>)
  have "day d \<le> days_in_month y (month d)"
    using m assms(1,2)
    by (elim insertE emptyE)
       (auto simp: valid_date_def leap_day_def days_in_month_def DAYS_IN_MONTH_def split: if_splits)
  then show ?thesis
    using assms by (simp add: replace_year_def check_date_fields_def valid_date_def)
qed

lemma replace_year_fields:
  "replace_year d y = Inr p \<Longrightarrow> valid_date p \<and> year p = y \<and> month p = month d \<and> day p = day d"
  by (auto simp: replace_year_def check_date_fields_def valid_date_def split: if_splits)

lemma projected_valid:
  assumes "valid_date d" "\<not> leap_day d" "valid_date today" "year today < 9998"
  shows "\<exists>p. projected d today = Inr p \<and> valid_date p \<and> year p \<le> 9998"
proof -
  have y: "1 \<le> year today" "year today \<le> 9999" "1 \<le> year today + 1" "year today + 1 \<le> 9999"
    using assms(3,4) by (simp_all add: valid_date_def)
  let ?p = "Date (year today) (month d) (day d)"
  have 1: "replace_year d (year today) = Inr ?p"
    using assms(1,2) y(1,2) by (rule replace_year_valid)
  have v: "valid_date ?p" using replace_year_fields [OF 1] by simp
  have l: "\<not> leap_day ?p" using assms(2) by (simp add: leap_day_def)
  have 2: "replace_year ?p (year today + 1) = Inr (Date (year today + 1) (month d) (day d))"
    using replace_year_valid [OF v l y(3,4)] by simp
  show ?thesis
  proof (cases "date_lt ?p today")
    case True
    then have "projected d today = Inr (Date (year today + 1) (month d) (day d))"
      using 1 2 by (simp add: projected_def)
    then show ?thesis using replace_year_fields [OF 2] assms(4) by simp
  next
    case False
    then have "projected d today = Inr ?p"
      using 1 by (simp add: projected_def)
    then show ?thesis using v assms(4) by simp
  qed
qed

lemma toordinal_bounds:
  assumes "valid_date p" "year p \<le> 9998"
  shows "1 \<le> toordinal p \<and> toordinal p + 2 \<le> MAXORDINAL"
proof -
  define z where "z = year p - 1"
  have z: "0 \<le> z" "z \<le> 9997" using assms by (simp_all add: z_def valid_date_def)
  have "z div 4 \<le> 9997 div 4" using z(2) by (rule zdiv_mono1) simp
  moreover have "z div 400 \<le> 9997 div 400" using z(2) by (rule zdiv_mono1) simp
  moreover have "0 \<le> z div 100" "0 \<le> z div 400" "z div 100 \<le> z div 4"
    using z(1) by (simp_all add: pos_imp_zdiv_nonneg_iff zdiv_mono2)
  ultimately have d: "0 \<le> days_before_year (year p)" "days_before_year (year p) \<le> 3651428"
    using z by (simp_all add: days_before_year_def Let_def z_def [symmetric])
  have m: "month p \<in> {1, 2, 3, 4, 5, 6, 7, 8, 9, 10, 11, 12}"
    by (rule month_cases) (use assms(1) in \<open>simp_all add: valid_date_def\<close>)
  have "1 \<le> days_before_month (year p) (month p) + day p \<and>
        days_before_month (year p) (month p) + day p \<le> 366"
    using m assms(1)
    by (elim insertE emptyE)
       (auto simp: valid_date_def days_before_month_def days_in_month_def
          DAYS_BEFORE_MONTH_def DAYS_IN_MONTH_def split: if_splits)
  then show ?thesis
    using d by (simp add: toordinal_def ymd2ord_def MAXORDINAL_def)
qed

lemma add_days_in_range:
  assumes "valid_date p" "year p \<le> 9998" "0 \<le> n" "n \<le> 2"
  shows "\<exists>q. add_days p n = Inr q"
  using toordinal_bounds [OF assms(1,2)] assms(3,4)
  by (simp add: add_days_def Let_def)

lemma upcoming_loop_total:
  assumes "list_all (\<lambda>r. case birthday r of None \<Rightarrow> True
                          | Some b \<Rightarrow> valid_date (date b) \<and> \<not> leap_day (date b)) rs"
    and "valid_date today" and "year today < 9998"
  shows "\<exists>out. upcoming_loop rs days today acc = Inr out"
  using assms(1)
proof (induction rs arbitrary: acc)
  case Nil
  then show ?case by simp
next
  case (Cons r rest)
  then have rest: "\<exists>out. upcoming_loop rest days today acc' = Inr out" for acc'
    by simp
  show ?case
  proof (cases "birthday r")
    case None
    then show ?thesis using rest by simp
  next
    case (Some b)
    then have b: "valid_date (date b)" "\<not> leap_day (date b)"
      using Cons.prems by simp_all
    from projected_valid [OF b assms(2,3)] obtain p where
      p: "projected (date b) today = Inr p" "valid_date p" "year p \<le> 9998"
      by blast
    from add_days_in_range [OF p(2,3), of 2] obtain q2 where q2: "add_days p 2 = Inr q2"
      by auto
    from add_days_in_range [OF p(2,3), of 1] obtain q1 where q1: "add_days p 1 = Inr q1"
      by auto
    show ?thesis
      using Some p(1) q1 q2 rest by simp
  qed
qed

lemma get_upcoming_birthdays_total:
  assumes "list_all (\<lambda>r. case birthday r of None \<Rightarrow> True
                          | Some b \<Rightarrow> valid_date (date b) \<and> \<not> leap_day (date b))
             (map snd address_book)"
    and "valid_date today" and "year today < 9998"
  shows "\<exists>out. get_upcoming_birthdays address_book days today = Inr out"
  unfolding get_upcoming_birthdays_def using assms by (rule upcoming_loop_total)

lemma get_upcoming_birthdays_none_qualify:
  assumes "get_upcoming_birthdays address_book days today = Inr out"
    and "filter (in_window days today) (map snd address_book) = []"
  shows "out = []"
  using upcoming_loop_entries [of "map snd address_book" days today "[]" out] assms
  by (simp add: get_upcoming_birthdays_def)

text \<open>
  Claim C5 says that the computation returns a list for every directory and every
  \<open>today\<close>. The birthday \<open>29.02.2000\<close> is accepted by \<open>Birthday\<close>; with
  \<open>today\<close> in 2023, which is not a leap year, \<open>replace(year=2023)\<close> raises
  \<open>ValueError\<close>, and nothing in \<open>get_upcoming_birthdays\<close> or its caller catches it.
\<close>

theorem get_upcoming_birthdays_leap_day_raises:
  "Birthday_init ''29.02.2000'' = Inr (Birthday (Date 2000 2 29) ''29.02.2000'') \<and>
   get_upcoming_birthdays
     [(''Bob'', \<lparr>name = Name ''Bob'', phones = [],
                birthday = Some (Birthday (Date 2000 2 29) ''29.02.2000'')\<rparr>)]
     7 (Date 2023 6 10) = Inl (ValueError ''day is out of range for month'')"
  by code_simp

theorem get_upcoming_birthdays_leap_day_raises_witness:
  "\<not> isl (Birthday_init ''29.02.2000'') \<and>
   isl (get_upcoming_birthdays
     [(''Bob'', \<lparr>name = Name ''Bob'', phones = [],
                birthday = Some (Birthday (Date 2000 2 29) ''29.02.2000'')\<rparr>)]
     7 (Date 2023 6 10))"
  using get_upcoming_birthdays_leap_day_raises by simp

section \<open>Birthdays\<close>

subsection \<open>What the regular expression of the format matches\<close>

lemma char_codes:
  "(c = CHR ''0'') = ((of_char c :: nat) = 48)"
  "(c = CHR ''1'') = ((of_char c :: nat) = 49)"
  "(c = CHR ''3'') = ((of_char c :: nat) = 51)"
  "(c = CHR '' '') = ((of_char c :: nat) = 32)"
  "(c = CHR ''.'') = ((of_char c :: nat) = 46)"
  by (simp_all add: char_eq_code [of c])

lemma day_text_cases:
  "day_text t = ((\<exists>a. t = [a] \<and> decimal_digit a) \<or>
                 (\<exists>a b. t = [a, b] \<and> (a = CHR '' '' \<or> decimal_digit a) \<and> decimal_digit b))"
  by (auto simp: day_text_def split: list.splits)

lemma month_text_cases:
  "month_text t = ((\<exists>a. t = [a] \<and> decimal_digit a) \<or>
                 (\<exists>a b. t = [a, b] \<and> decimal_digit a \<and> decimal_digit b))"
  by (auto simp: month_text_def split: list.splits)

lemma year_text_cases:
  "year_text t = (\<exists>a b c d. t = [a, b, c, d] \<and> decimal_digit a \<and> decimal_digit b \<and> decimal_digit c \<and> decimal_digit d)"
  by (auto simp: year_text_def length_Suc_conv numeral_eq_Suc)

lemma rmatch_re_d:
  "(r \<in> set (rmatch re_d s)) =
   (\<exists>t. s = t @ r \<and> day_text t \<and> 1 \<le> int_of_str t \<and> int_of_str t \<le> 31)"
  (is "?L = ?R")
proof
  assume ?L
  then show ?R
    unfolding re_d_def day_text_cases
    by (auto simp: decimal_digit_iff int_of_str_def char_codes split: list.splits if_splits)
next
  assume ?R
  then show ?L
    unfolding re_d_def day_text_cases
    by (auto simp: decimal_digit_iff int_of_str_def char_codes split: list.splits if_splits)
qed

lemma rmatch_re_m:
  "(r \<in> set (rmatch re_m s)) =
   (\<exists>t. s = t @ r \<and> month_text t \<and> 1 \<le> int_of_str t \<and> int_of_str t \<le> 12)"
  (is "?L = ?R")
proof
  assume ?L
  then show ?R
    unfolding re_m_def month_text_cases
    by (auto simp: decimal_digit_iff int_of_str_def char_codes split: list.splits if_splits)
next
  assume ?R
  then show ?L
    unfolding re_m_def month_text_cases
    by (auto simp: decimal_digit_iff int_of_str_def char_codes split: list.splits if_splits)
qed

lemma rmatch_re_Y:
  "(r \<in> set (rmatch re_Y s)) = (\<exists>t. s = t @ r \<and> year_text t)"
  (is "?L = ?R")
proof
  assume ?L
  then show ?R
    unfolding re_Y_def year_text_cases
    by (auto simp: decimal_digit_iff split: list.splits if_splits)
next
  assume ?R
  then show ?L
    unfolding re_Y_def year_text_cases
    by (auto simp: decimal_digit_iff split: list.splits if_splits)
qed

lemma rmatch_dot: "(r \<in> set (rmatch (Lit CHR ''.'') s)) = (s = CHR ''.'' # r)"
  by (auto split: list.splits if_splits)

lemma group_append: "group (t @ r) r = t"
  by (simp add: group_def)

text \<open>No text of a day or of a month has a dot in it.\<close>

lemma day_text_no_dot: "day_text t \<Longrightarrow> CHR ''.'' \<notin> set t"
  by (auto simp: day_text_cases decimal_digit_iff char_codes)

lemma month_text_no_dot: "month_text t \<Longrightarrow> CHR ''.'' \<notin> set t"
  by (auto simp: month_text_cases decimal_digit_iff char_codes)

lemma split_at_first_dot:
  assumes "t @ CHR ''.'' # r = t' @ CHR ''.'' # r'" "CHR ''.'' \<notin> set t" "CHR ''.'' \<notin> set t'"
  shows "t = t' \<and> r = r'"
  using assms
proof (induction t arbitrary: t')
  case Nil
  then show ?case by (cases t') auto
next
  case (Cons a t)
  then show ?case by (cases t') auto
qed

lemma comp_set:
  "(x \<in> set [((group s r1, group r2 r3, group r4 r5), r5).
              r1 \<leftarrow> rmatch re_d s, r2 \<leftarrow> rmatch (Lit CHR ''.'') r1,
              r3 \<leftarrow> rmatch re_m r2, r4 \<leftarrow> rmatch (Lit CHR ''.'') r3,
              r5 \<leftarrow> rmatch re_Y r4]) =
   (\<exists>r1 r2 r3 r4 r5. r1 \<in> set (rmatch re_d s) \<and> r2 \<in> set (rmatch (Lit CHR ''.'') r1) \<and>
      r3 \<in> set (rmatch re_m r2) \<and> r4 \<in> set (rmatch (Lit CHR ''.'') r3) \<and>
      r5 \<in> set (rmatch re_Y r4) \<and> x = ((group s r1, group r2 r3, group r4 r5), r5))"
  apply (simp only: set_concat set_map UN_iff image_iff bex_simps)
  apply blast
  done

lemma matches_set:
  "(x \<in> set [((group s r1, group r2 r3, group r4 r5), r5).
              r1 \<leftarrow> rmatch re_d s, r2 \<leftarrow> rmatch (Lit CHR ''.'') r1,
              r3 \<leftarrow> rmatch re_m r2, r4 \<leftarrow> rmatch (Lit CHR ''.'') r3,
              r5 \<leftarrow> rmatch re_Y r4]) =
   (\<exists>d m y r. x = ((d, m, y), r) \<and> s = d @ ''.'' @ m @ ''.'' @ y @ r \<and>
      day_text d \<and> 1 \<le> int_of_str d \<and> int_of_str d \<le> 31 \<and>
      month_text m \<and> 1 \<le> int_of_str m \<and> int_of_str m \<le> 12 \<and> year_text y)"
  (is "?L = ?R")
proof
  assume ?L
  then obtain r1 r2 r3 r4 r5 where
    x: "x = ((group s r1, group r2 r3, group r4 r5), r5)"
    and m1: "r1 \<in> set (rmatch re_d s)" and m2: "r2 \<in> set (rmatch (Lit CHR ''.'') r1)"
    and m3: "r3 \<in> set (rmatch re_m r2)" and m4: "r4 \<in> set (rmatch (Lit CHR ''.'') r3)"
    and m5: "r5 \<in> set (rmatch re_Y r4)"
    unfolding comp_set by blast
  from m1 obtain d where d: "s = d @ r1" "day_text d" "1 \<le> int_of_str d" "int_of_str d \<le> 31"
    unfolding rmatch_re_d by blast
  from m2 have r1: "r1 = CHR ''.'' # r2" unfolding rmatch_dot .
  from m3 obtain m where m: "r2 = m @ r3" "month_text m" "1 \<le> int_of_str m" "int_of_str m \<le> 12"
    unfolding rmatch_re_m by blast
  from m4 have r3: "r3 = CHR ''.'' # r4" unfolding rmatch_dot .
  from m5 obtain y where y: "r4 = y @ r5" "year_text y"
    unfolding rmatch_re_Y by blast
  have g: "group s r1 = d" "group r2 r3 = m" "group r4 r5 = y"
    unfolding d(1) m(1) y(1) by (rule group_append)+
  have "s = d @ ''.'' @ m @ ''.'' @ y @ r5"
    using d(1) r1 m(1) r3 y(1) by simp
  then show ?R
    unfolding x g using d(2-4) m(2-4) y(2) by blast
next
  assume ?R
  then obtain d m y r where
    x: "x = ((d, m, y), r)" and s: "s = d @ ''.'' @ m @ ''.'' @ y @ r"
    and t: "day_text d" "1 \<le> int_of_str d" "int_of_str d \<le> 31"
      "month_text m" "1 \<le> int_of_str m" "int_of_str m \<le> 12" "year_text y"
    by blast
  define r1 where "r1 = ''.'' @ m @ ''.'' @ y @ r"
  define r2 where "r2 = m @ ''.'' @ y @ r"
  define r3 where "r3 = ''.'' @ y @ r"
  define r4 where "r4 = y @ r"
  have e: "s = d @ r1" "r1 = CHR ''.'' # r2" "r2 = m @ r3" "r3 = CHR ''.'' # r4" "r4 = y @ r"
    by (simp_all add: s r1_def r2_def r3_def r4_def)
  have 1: "r1 \<in> set (rmatch re_d s)"
    unfolding rmatch_re_d using e(1) t by blast
  have 2: "r2 \<in> set (rmatch (Lit CHR ''.'') r1)"
    unfolding rmatch_dot by (rule e(2))
  have 3: "r3 \<in> set (rmatch re_m r2)"
    unfolding rmatch_re_m using e(3) t by blast
  have 4: "r4 \<in> set (rmatch (Lit CHR ''.'') r3)"
    unfolding rmatch_dot by (rule e(4))
  have 5: "r \<in> set (rmatch re_Y r4)"
    unfolding rmatch_re_Y using e(5) t by blast
  have g: "group s r1 = d" "group r2 r3 = m" "group r4 r = y"
    unfolding e(1) e(3) e(5) by (rule group_append)+
  have "x = ((group s r1, group r2 r3, group r4 r), r)"
    unfolding g x ..
  with 1 2 3 4 5 show ?L
    unfolding comp_set by blast
qed

subsection \<open>The first match and the check of the date\<close>

lemma year_text_length: "year_text y \<Longrightarrow> length y = 4"
  by (simp add: year_text_def)

lemma decomposition_unique:
  assumes "d @ ''.'' @ m @ ''.'' @ y @ r = d' @ ''.'' @ m' @ ''.'' @ y' @ r'"
    and "day_text d" "day_text d'" "month_text m" "month_text m'" "year_text y" "year_text y'"
  shows "d = d' \<and> m = m' \<and> y = y' \<and> r = r'"
proof -
  have 1: "d = d' \<and> m @ ''.'' @ y @ r = m' @ ''.'' @ y' @ r'"
    using split_at_first_dot [of d "m @ ''.'' @ y @ r" d' "m' @ ''.'' @ y' @ r'"]
      assms(1) day_text_no_dot [OF assms(2)] day_text_no_dot [OF assms(3)] by simp
  then have 2: "m = m' \<and> y @ r = y' @ r'"
    using split_at_first_dot [of m "y @ r" m' "y' @ r'"]
      month_text_no_dot [OF assms(4)] month_text_no_dot [OF assms(5)] by simp
  then have "y = y' \<and> r = r'"
    using year_text_length [OF assms(6)] year_text_length [OF assms(7)] by simp
  with 1 2 show ?thesis by simp
qed

lemma format_regex_match_Some:
  "(format_regex_match s = Some ((d, m, y), r)) =
   (s = d @ ''.'' @ m @ ''.'' @ y @ r \<and>
      day_text d \<and> 1 \<le> int_of_str d \<and> int_of_str d \<le> 31 \<and>
      month_text m \<and> 1 \<le> int_of_str m \<and> int_of_str m \<le> 12 \<and> year_text y)"
  (is "?L = ?R")
proof -
  define xs where "xs = [((group s r1, group r2 r3, group r4 r5), r5).
              r1 \<leftarrow> rmatch re_d s, r2 \<leftarrow> rmatch (Lit CHR ''.'') r1,
              r3 \<leftarrow> rmatch re_m r2, r4 \<leftarrow> rmatch (Lit CHR ''.'') r3,
              r5 \<leftarrow> rmatch re_Y r4]"
  have mem: "(x \<in> set xs) =
     (\<exists>d m y r. x = ((d, m, y), r) \<and> s = d @ ''.'' @ m @ ''.'' @ y @ r \<and>
      day_text d \<and> 1 \<le> int_of_str d \<and> int_of_str d \<le> 31 \<and>
      month_text m \<and> 1 \<le> int_of_str m \<and> int_of_str m \<le> 12 \<and> year_text y)" for x
    unfolding xs_def by (rule matches_set)
  have uniq: "x \<in> set xs \<Longrightarrow> x' \<in> set xs \<Longrightarrow> x = x'" for x x'
    unfolding mem using decomposition_unique by blast
  have fm: "format_regex_match s = (case xs of [] \<Rightarrow> None | found # _ \<Rightarrow> Some found)"
    unfolding format_regex_match_def xs_def ..
  have "?L = (((d, m, y), r) \<in> set xs)"
  proof (cases xs)
    case Nil
    then show ?thesis by (simp add: fm)
  next
    case (Cons x rest)
    then have "x \<in> set xs" by simp
    with uniq have "((d, m, y), r) \<in> set xs \<Longrightarrow> x = ((d, m, y), r)" by blast
    then show ?thesis using Cons by (auto simp: fm)
  qed
  then show ?thesis unfolding mem by blast
qed

lemma format_regex_match_cases:
  "format_regex_match s = None \<or> (\<exists>d m y r. format_regex_match s = Some ((d, m, y), r))"
  by (cases "format_regex_match s") auto

lemma days_in_month_length:
  "1 \<le> m \<Longrightarrow> m \<le> 12 \<Longrightarrow> days_in_month y m = month_length y m"
proof -
  assume "1 \<le> m" "m \<le> 12"
  then have "m \<in> {1, 2, 3, 4, 5, 6, 7, 8, 9, 10, 11, 12}"
    by (simp only: insert_iff empty_iff) arith
  moreover have "is_leap y = leap_year y"
    by (auto simp: is_leap_def leap_year_def dvd_eq_mod_eq_0)
  ultimately show ?thesis
    by (auto simp: days_in_month_def month_length_def DAYS_IN_MONTH_def)
qed

lemma month_length_le: "month_length y m \<le> 31"
  by (simp add: month_length_def)

lemma check_date_fields_Inr:
  "(check_date_fields y m d = Inr dt) =
   (real_calendar_date y m d \<and> y \<le> 9999 \<and> dt = Date y m d)"
  using days_in_month_length [of m y]
  by (auto simp: check_date_fields_def real_calendar_date_def)

lemma check_date_fields_error:
  "check_date_fields y m d = Inl e \<Longrightarrow> \<exists>msg. e = ValueError msg"
  by (auto simp: check_date_fields_def split: if_splits)

lemma year_text_bound: "year_text y \<Longrightarrow> int_of_str y \<le> 9999"
  by (auto simp: year_text_cases int_of_str_def decimal_digit_iff char_codes)

lemma real_calendar_date_bounds:
  "real_calendar_date y m d \<Longrightarrow> 1 \<le> d \<and> d \<le> 31 \<and> 1 \<le> m \<and> m \<le> 12"
  using month_length_le [of y m] by (auto simp: real_calendar_date_def)

lemma strptime_Inr:
  "(strptime s = Inr dt) =
   (\<exists>d m y. s = d @ ''.'' @ m @ ''.'' @ y \<and> day_text d \<and> month_text m \<and> year_text y \<and>
      real_calendar_date (int_of_str y) (int_of_str m) (int_of_str d) \<and>
      dt = Date (int_of_str y) (int_of_str m) (int_of_str d))"
  (is "?L = ?R")
proof
  assume l: ?L
  from format_regex_match_cases [of s] show ?R
  proof
    assume "format_regex_match s = None"
    with l show ?R by (simp add: strptime_def)
  next
    assume "\<exists>d m y r. format_regex_match s = Some ((d, m, y), r)"
    then obtain d m y r where f: "format_regex_match s = Some ((d, m, y), r)" by blast
    with l have r: "r = []" and c: "check_date_fields (int_of_str y) (int_of_str m) (int_of_str d) = Inr dt"
      by (auto simp: strptime_def split: if_splits)
    from f have "s = d @ ''.'' @ m @ ''.'' @ y @ r" "day_text d" "month_text m" "year_text y"
      unfolding format_regex_match_Some by blast+
    with r c show ?R unfolding check_date_fields_Inr by auto
  qed
next
  assume ?R
  then obtain d m y where s: "s = d @ ''.'' @ m @ ''.'' @ y @ []"
    and t: "day_text d" "month_text m" "year_text y"
    and rd: "real_calendar_date (int_of_str y) (int_of_str m) (int_of_str d)"
    and dt: "dt = Date (int_of_str y) (int_of_str m) (int_of_str d)"
    by auto
  from real_calendar_date_bounds [OF rd] s t
  have "format_regex_match s = Some ((d, m, y), [])"
    unfolding format_regex_match_Some by blast
  moreover have "check_date_fields (int_of_str y) (int_of_str m) (int_of_str d) = Inr dt"
    unfolding check_date_fields_Inr using rd dt year_text_bound [OF t(3)] by simp
  ultimately show ?L by (simp add: strptime_def)
qed

lemma strptime_error: "strptime s = Inl e \<Longrightarrow> \<exists>msg. e = ValueError msg"
  by (auto simp: strptime_def split: option.splits if_splits dest: check_date_fields_error)

lemma Birthday_init_Inr:
  "(Birthday_init s = Inr b) = (\<exists>dt. strptime s = Inr dt \<and> b = Birthday dt s)"
  by (auto simp: Birthday_init_def split: sum.splits error.splits)

lemma Birthday_init_Inl:
  "Birthday_init s = Inl e \<Longrightarrow> e = ValueError ''Invalid date format. Use DD.MM.YYYY''"
  by (auto simp: Birthday_init_def split: sum.splits error.splits dest: strptime_error)

lemma matches_DD_MM_YYYY_texts:
  assumes "matches_DD_MM_YYYY s"
  shows "s = take 2 s @ ''.'' @ take 2 (drop 3 s) @ ''.'' @ drop 6 s \<and>
         day_text (take 2 s) \<and> month_text (take 2 (drop 3 s)) \<and> year_text (drop 6 s)"
proof -
  from assms have "length s = 10" by (simp add: matches_DD_MM_YYYY_def)
  then obtain c0 c1 c2 c3 c4 c5 c6 c7 c8 c9 where s: "s = [c0, c1, c2, c3, c4, c5, c6, c7, c8, c9]"
    by (auto simp: length_Suc_conv numeral_eq_Suc)
  show ?thesis
    using assms unfolding s
    by (simp add: matches_DD_MM_YYYY_def day_text_def month_text_def year_text_def)
qed

lemma Birthday_init_valid_date: "Birthday_init s = Inr b \<Longrightarrow> valid_date (date b)"
proof -
  assume "Birthday_init s = Inr b"
  then obtain d m y where t: "year_text y"
    and r: "real_calendar_date (int_of_str y) (int_of_str m) (int_of_str d)"
    and b: "date b = Date (int_of_str y) (int_of_str m) (int_of_str d)"
    unfolding Birthday_init_Inr strptime_Inr by auto
  from r have "1 \<le> int_of_str m" "int_of_str m \<le> 12"
    by (simp_all add: real_calendar_date_def)
  then have "days_in_month (int_of_str y) (int_of_str m) = month_length (int_of_str y) (int_of_str m)"
    by (rule days_in_month_length)
  then show ?thesis
    using r year_text_bound [OF t] by (simp add: b valid_date_def real_calendar_date_def)
qed

subsection \<open>Constructing a Birthday\<close>

text \<open>
  On strings of code points below 256: constructing a Birthday from \<open>s\<close> succeeds exactly
  when \<open>s\<close> is a day, a dot, a month, a dot and a year that are a real calendar date, the
  day written with one digit, two digits or a blank and a digit, the month with one digit
  or two, the year with four digits.
\<close>

lemma Birthday_init_latin1_iff:
  "((\<exists>b. Birthday_init s = Inr b) \<longleftrightarrow>
      (\<exists>d m y. s = d @ ''.'' @ m @ ''.'' @ y \<and> day_text d \<and> month_text m \<and> year_text y \<and>
         real_calendar_date (int_of_str y) (int_of_str m) (int_of_str d))) \<and>
   (\<forall>d m y. s = d @ ''.'' @ m @ ''.'' @ y \<and> day_text d \<and> month_text m \<and> year_text y \<and>
         real_calendar_date (int_of_str y) (int_of_str m) (int_of_str d) \<longrightarrow>
      Birthday_init s = Inr (Birthday (Date (int_of_str y) (int_of_str m) (int_of_str d)) s)) \<and>
   (matches_DD_MM_YYYY s \<and>
      real_calendar_date (int_of_str (drop 6 s)) (int_of_str (take 2 (drop 3 s))) (int_of_str (take 2 s)) \<longrightarrow>
      Birthday_init s =
        Inr (Birthday (Date (int_of_str (drop 6 s)) (int_of_str (take 2 (drop 3 s))) (int_of_str (take 2 s))) s)) \<and>
   ((\<nexists>b. Birthday_init s = Inr b) \<longrightarrow>
      Birthday_init s = Inl (ValueError ''Invalid date format. Use DD.MM.YYYY'')) \<and>
   Birthday_init ''30.02.2024'' = Inl (ValueError ''Invalid date format. Use DD.MM.YYYY'') \<and>
   Birthday_init ''13/05/2024'' = Inl (ValueError ''Invalid date format. Use DD.MM.YYYY'')"
proof -
  have general: "s = d @ ''.'' @ m @ ''.'' @ y \<and> day_text d \<and> month_text m \<and> year_text y \<and>
         real_calendar_date (int_of_str y) (int_of_str m) (int_of_str d) \<Longrightarrow>
      Birthday_init s = Inr (Birthday (Date (int_of_str y) (int_of_str m) (int_of_str d)) s)" for d m y
    unfolding Birthday_init_Inr strptime_Inr by blast
  have iff: "(\<exists>b. Birthday_init s = Inr b) \<longleftrightarrow>
      (\<exists>d m y. s = d @ ''.'' @ m @ ''.'' @ y \<and> day_text d \<and> month_text m \<and> year_text y \<and>
         real_calendar_date (int_of_str y) (int_of_str m) (int_of_str d))"
    unfolding Birthday_init_Inr strptime_Inr by blast
  have strict: "matches_DD_MM_YYYY s \<and>
      real_calendar_date (int_of_str (drop 6 s)) (int_of_str (take 2 (drop 3 s))) (int_of_str (take 2 s)) \<Longrightarrow>
      Birthday_init s =
        Inr (Birthday (Date (int_of_str (drop 6 s)) (int_of_str (take 2 (drop 3 s))) (int_of_str (take 2 s))) s)"
    using matches_DD_MM_YYYY_texts [of s] general [of "take 2 s" "take 2 (drop 3 s)" "drop 6 s"]
    by blast
  have fails: "(\<nexists>b. Birthday_init s = Inr b) \<Longrightarrow>
      Birthday_init s = Inl (ValueError ''Invalid date format. Use DD.MM.YYYY'')"
    using Birthday_init_Inl [of s] by (cases "Birthday_init s") auto
  have e1: "Birthday_init ''30.02.2024'' = Inl (ValueError ''Invalid date format. Use DD.MM.YYYY'')"
    by code_simp
  have e2: "Birthday_init ''13/05/2024'' = Inl (ValueError ''Invalid date format. Use DD.MM.YYYY'')"
    by code_simp
  from general iff strict fails e1 e2 show ?thesis by blast
qed

text \<open>
  Claim C7 as stated fails: \<open>1.2.2024\<close> does not match the pattern \<open>DD.MM.YYYY\<close>, and
  the construction accepts it, as the first of February 2024.
\<close>

theorem Birthday_init_one_digit_counterexample:
  "Birthday_init ''1.2.2024'' = Inr (Birthday (Date 2024 2 1) ''1.2.2024'') \<and>
   \<not> matches_DD_MM_YYYY ''1.2.2024''"
proof -
  have "Birthday_init ''1.2.2024'' = Inr (Birthday (Date 2024 2 1) ''1.2.2024'')"
    by code_simp
  moreover have "\<not> matches_DD_MM_YYYY ''1.2.2024''"
    by (simp add: matches_DD_MM_YYYY_def)
  ultimately show ?thesis by blast
qed

section \<open>Birthdays on strings of any code points: what is accepted\<close>

lemma day_text_cp_cases:
  "day_text_cp decimal t =
     ((\<exists>a. t = [a] \<and> 49 \<le> a \<and> a \<le> 57) \<or>
      (\<exists>a b. t = [a, b] \<and>
         ((a = 51 \<and> 48 \<le> b \<and> b \<le> 49) \<or>
          (49 \<le> a \<and> a \<le> 50 \<and> decimal b \<noteq> None) \<or>
          (a = 48 \<and> 49 \<le> b \<and> b \<le> 57) \<or>
          (a = 32 \<and> 49 \<le> b \<and> b \<le> 57))))"
  by (auto simp: day_text_cp_def split: list.splits)

lemma month_text_cp_cases:
  "month_text_cp t =
     ((\<exists>a. t = [a] \<and> 49 \<le> a \<and> a \<le> 57) \<or>
      (\<exists>a b. t = [a, b] \<and>
         ((a = 49 \<and> 48 \<le> b \<and> b \<le> 50) \<or> (a = 48 \<and> 49 \<le> b \<and> b \<le> 57))))"
  by (auto simp: month_text_cp_def split: list.splits)

lemma year_text_cp_cases:
  "year_text_cp decimal t =
     (\<exists>a b c d. t = [a, b, c, d] \<and> decimal a \<noteq> None \<and> decimal b \<noteq> None \<and>
        decimal c \<noteq> None \<and> decimal d \<noteq> None)"
  by (auto simp: year_text_cp_def length_Suc_conv numeral_eq_Suc)

lemma rmatch_cp_re_d:
  "(r \<in> set (rmatch_cp decimal re_d s)) = (\<exists>t. s = t @ r \<and> day_text_cp decimal t)"
  (is "?L = ?R")
proof
  assume ?L
  then show ?R
    unfolding re_d_def day_text_cp_cases
    by (auto split: list.splits if_splits option.splits)
next
  assume ?R
  then show ?L
    unfolding re_d_def day_text_cp_cases
    by (auto split: list.splits if_splits option.splits)
qed

lemma rmatch_cp_re_m:
  "(r \<in> set (rmatch_cp decimal re_m s)) = (\<exists>t. s = t @ r \<and> month_text_cp t)"
  (is "?L = ?R")
proof
  assume ?L
  then show ?R
    unfolding re_m_def month_text_cp_cases
    by (auto split: list.splits if_splits option.splits)
next
  assume ?R
  then show ?L
    unfolding re_m_def month_text_cp_cases
    by (auto split: list.splits if_splits option.splits)
qed

lemma rmatch_cp_re_Y:
  "(r \<in> set (rmatch_cp decimal re_Y s)) = (\<exists>t. s = t @ r \<and> year_text_cp decimal t)"
  (is "?L = ?R")
proof
  assume ?L
  then show ?R
    unfolding re_Y_def year_text_cp_cases
    by (auto split: list.splits if_splits option.splits) metis+
next
  assume ?R
  then show ?L
    unfolding re_Y_def year_text_cp_cases
    by (auto split: list.splits if_splits option.splits)
qed

lemma rmatch_cp_dot: "(r \<in> set (rmatch_cp decimal (Lit CHR ''.'') s)) = (s = 46 # r)"
  by (auto split: list.splits if_splits)

lemma decimal_ascii:
  "decimal_table decimal \<Longrightarrow> c < 256 \<Longrightarrow>
   decimal c = (if 48 \<le> c \<and> c \<le> 57 then Some (c - 48) else None)"
  by (simp add: decimal_table_def)

lemma decimal_le_9: "decimal_table decimal \<Longrightarrow> decimal c = Some v \<Longrightarrow> v \<le> 9"
  by (auto simp: decimal_table_def)

lemma group_cp_append: "group_cp (t @ r) r = t"
  by (simp add: group_cp_def)

lemma day_text_cp_no_dot: "decimal_table decimal \<Longrightarrow> day_text_cp decimal t \<Longrightarrow> 46 \<notin> set t"
  using decimal_ascii [of decimal 46] by (auto simp: day_text_cp_cases)

lemma month_text_cp_no_dot: "month_text_cp t \<Longrightarrow> 46 \<notin> set t"
  by (auto simp: month_text_cp_cases)

lemma year_text_cp_length: "year_text_cp decimal y \<Longrightarrow> length y = 4"
  by (simp add: year_text_cp_def)

lemma split_at_first_dot_cp:
  assumes "t @ 46 # r = t' @ 46 # r'" "(46::nat) \<notin> set t" "(46::nat) \<notin> set t'"
  shows "t = t' \<and> r = r'"
  using assms
proof (induction t arbitrary: t')
  case Nil
  then show ?case by (cases t') auto
next
  case (Cons a t)
  then show ?case by (cases t') auto
qed

lemma decomposition_cp_unique:
  assumes "d @ [46] @ m @ [46] @ y @ r = d' @ [46] @ m' @ [46] @ y' @ r'"
    and "decimal_table decimal"
    and "day_text_cp decimal d" "day_text_cp decimal d'" "month_text_cp m" "month_text_cp m'"
    and "year_text_cp decimal y" "year_text_cp decimal y'"
  shows "d = d' \<and> m = m' \<and> y = y' \<and> r = r'"
proof -
  have 1: "d = d' \<and> m @ [46] @ y @ r = m' @ [46] @ y' @ r'"
    using split_at_first_dot_cp [of d "m @ [46] @ y @ r" d' "m' @ [46] @ y' @ r'"]
      assms(1) day_text_cp_no_dot [OF assms(2,3)] day_text_cp_no_dot [OF assms(2,4)] by simp
  then have 2: "m = m' \<and> y @ r = y' @ r'"
    using split_at_first_dot_cp [of m "y @ r" m' "y' @ r'"]
      month_text_cp_no_dot [OF assms(5)] month_text_cp_no_dot [OF assms(6)] by simp
  then have "y = y' \<and> r = r'"
    using year_text_cp_length [OF assms(7)] year_text_cp_length [OF assms(8)] by simp
  with 1 2 show ?thesis by simp
qed

lemma comp_cp_set:
  "(x \<in> set [((group_cp s r1, group_cp r2 r3, group_cp r4 r5), r5).
              r1 \<leftarrow> rmatch_cp decimal re_d s, r2 \<leftarrow> rmatch_cp decimal (Lit CHR ''.'') r1,
              r3 \<leftarrow> rmatch_cp decimal re_m r2, r4 \<leftarrow> rmatch_cp decimal (Lit CHR ''.'') r3,
              r5 \<leftarrow> rmatch_cp decimal re_Y r4]) =
   (\<exists>r1 r2 r3 r4 r5. r1 \<in> set (rmatch_cp decimal re_d s) \<and>
      r2 \<in> set (rmatch_cp decimal (Lit CHR ''.'') r1) \<and>
      r3 \<in> set (rmatch_cp decimal re_m r2) \<and> r4 \<in> set (rmatch_cp decimal (Lit CHR ''.'') r3) \<and>
      r5 \<in> set (rmatch_cp decimal re_Y r4) \<and>
      x = ((group_cp s r1, group_cp r2 r3, group_cp r4 r5), r5))"
  apply (simp only: set_concat set_map UN_iff image_iff bex_simps)
  apply blast
  done

lemma matches_cp_set:
  "(x \<in> set [((group_cp s r1, group_cp r2 r3, group_cp r4 r5), r5).
              r1 \<leftarrow> rmatch_cp decimal re_d s, r2 \<leftarrow> rmatch_cp decimal (Lit CHR ''.'') r1,
              r3 \<leftarrow> rmatch_cp decimal re_m r2, r4 \<leftarrow> rmatch_cp decimal (Lit CHR ''.'') r3,
              r5 \<leftarrow> rmatch_cp decimal re_Y r4]) =
   (\<exists>d m y r. x = ((d, m, y), r) \<and> s = d @ [46] @ m @ [46] @ y @ r \<and>
      day_text_cp decimal d \<and> month_text_cp m \<and> year_text_cp decimal y)"
  (is "?L = ?R")
proof
  assume ?L
  then obtain r1 r2 r3 r4 r5 where
    x: "x = ((group_cp s r1, group_cp r2 r3, group_cp r4 r5), r5)"
    and m1: "r1 \<in> set (rmatch_cp decimal re_d s)"
    and m2: "r2 \<in> set (rmatch_cp decimal (Lit CHR ''.'') r1)"
    and m3: "r3 \<in> set (rmatch_cp decimal re_m r2)"
    and m4: "r4 \<in> set (rmatch_cp decimal (Lit CHR ''.'') r3)"
    and m5: "r5 \<in> set (rmatch_cp decimal re_Y r4)"
    unfolding comp_cp_set by blast
  from m1 obtain d where d: "s = d @ r1" "day_text_cp decimal d"
    unfolding rmatch_cp_re_d by blast
  from m2 have r1: "r1 = 46 # r2" unfolding rmatch_cp_dot .
  from m3 obtain m where m: "r2 = m @ r3" "month_text_cp m"
    unfolding rmatch_cp_re_m by blast
  from m4 have r3: "r3 = 46 # r4" unfolding rmatch_cp_dot .
  from m5 obtain y where y: "r4 = y @ r5" "year_text_cp decimal y"
    unfolding rmatch_cp_re_Y by blast
  have g: "group_cp s r1 = d" "group_cp r2 r3 = m" "group_cp r4 r5 = y"
    unfolding d(1) m(1) y(1) by (rule group_cp_append)+
  have "s = d @ [46] @ m @ [46] @ y @ r5"
    using d(1) r1 m(1) r3 y(1) by simp
  then show ?R
    unfolding x g using d(2) m(2) y(2) by blast
next
  assume ?R
  then obtain d m y r where
    x: "x = ((d, m, y), r)" and s: "s = d @ [46] @ m @ [46] @ y @ r"
    and t: "day_text_cp decimal d" "month_text_cp m" "year_text_cp decimal y"
    by blast
  define r1 where "r1 = [46] @ m @ [46] @ y @ r"
  define r2 where "r2 = m @ [46] @ y @ r"
  define r3 where "r3 = [46] @ y @ r"
  define r4 where "r4 = y @ r"
  have e: "s = d @ r1" "r1 = 46 # r2" "r2 = m @ r3" "r3 = 46 # r4" "r4 = y @ r"
    by (simp_all add: s r1_def r2_def r3_def r4_def)
  have 1: "r1 \<in> set (rmatch_cp decimal re_d s)"
    unfolding rmatch_cp_re_d using e(1) t by blast
  have 2: "r2 \<in> set (rmatch_cp decimal (Lit CHR ''.'') r1)"
    unfolding rmatch_cp_dot by (rule e(2))
  have 3: "r3 \<in> set (rmatch_cp decimal re_m r2)"
    unfolding rmatch_cp_re_m using e(3) t by blast
  have 4: "r4 \<in> set (rmatch_cp decimal (Lit CHR ''.'') r3)"
    unfolding rmatch_cp_dot by (rule e(4))
  have 5: "r \<in> set (rmatch_cp decimal re_Y r4)"
    unfolding rmatch_cp_re_Y using e(5) t by blast
  have g: "group_cp s r1 = d" "group_cp r2 r3 = m" "group_cp r4 r = y"
    unfolding e(1) e(3) e(5) by (rule group_cp_append)+
  have "x = ((group_cp s r1, group_cp r2 r3, group_cp r4 r), r)"
    unfolding g x ..
  with 1 2 3 4 5 show ?L
    unfolding comp_cp_set by blast
qed

lemma format_regex_match_cp_Some:
  assumes "decimal_table decimal"
  shows "(format_regex_match_cp decimal s = Some ((d, m, y), r)) =
   (s = d @ [46] @ m @ [46] @ y @ r \<and>
      day_text_cp decimal d \<and> month_text_cp m \<and> year_text_cp decimal y)"
  (is "?L = ?R")
proof -
  define xs where "xs = [((group_cp s r1, group_cp r2 r3, group_cp r4 r5), r5).
              r1 \<leftarrow> rmatch_cp decimal re_d s, r2 \<leftarrow> rmatch_cp decimal (Lit CHR ''.'') r1,
              r3 \<leftarrow> rmatch_cp decimal re_m r2, r4 \<leftarrow> rmatch_cp decimal (Lit CHR ''.'') r3,
              r5 \<leftarrow> rmatch_cp decimal re_Y r4]"
  have mem: "(x \<in> set xs) =
     (\<exists>d m y r. x = ((d, m, y), r) \<and> s = d @ [46] @ m @ [46] @ y @ r \<and>
      day_text_cp decimal d \<and> month_text_cp m \<and> year_text_cp decimal y)" for x
    unfolding xs_def by (rule matches_cp_set)
  have uniq: "x \<in> set xs \<Longrightarrow> x' \<in> set xs \<Longrightarrow> x = x'" for x x'
    unfolding mem using decomposition_cp_unique [OF _ assms] by blast
  have fm: "format_regex_match_cp decimal s = (case xs of [] \<Rightarrow> None | found # _ \<Rightarrow> Some found)"
    unfolding format_regex_match_cp_def xs_def ..
  have "?L = (((d, m, y), r) \<in> set xs)"
  proof (cases xs)
    case Nil
    then show ?thesis by (simp add: fm)
  next
    case (Cons x rest)
    then have "x \<in> set xs" by simp
    with uniq have "((d, m, y), r) \<in> set xs \<Longrightarrow> x = ((d, m, y), r)" by blast
    then show ?thesis using Cons by (auto simp: fm)
  qed
  then show ?thesis unfolding mem by blast
qed

lemma format_regex_match_cp_cases:
  "format_regex_match_cp decimal s = None \<or>
   (\<exists>d m y r. format_regex_match_cp decimal s = Some ((d, m, y), r))"
  by (cases "format_regex_match_cp decimal s") auto

lemma digits_cp_all:
  "list_all (\<lambda>c. decimal c \<noteq> None) t \<Longrightarrow>
   digits_cp decimal a t =
     Some (foldl (\<lambda>a c. 10 * a + (case decimal c of None \<Rightarrow> 0 | Some v \<Rightarrow> int v)) a t)"
  by (induction t arbitrary: a) auto

lemma int_cp_digits:
  assumes "decimal_table decimal" "t \<noteq> []" "list_all (\<lambda>c. decimal c \<noteq> None) t"
  shows "int_cp decimal t = Inr (number_cp decimal t)"
proof -
  from assms(2) obtain c cs where t: "t = c # cs" by (cases t) auto
  have "decimal c \<noteq> None" using assms(3) t by simp
  then have "c \<noteq> 32" using decimal_ascii [OF assms(1), of 32] by auto
  then have "dropWhile (\<lambda>c. c = 32) t = c # cs" by (simp add: t)
  then show ?thesis
    using digits_cp_all [OF assms(3), of 0] by (simp add: int_cp_def number_cp_def t)
qed

lemma int_cp_blank:
  assumes "decimal_table decimal" "decimal b \<noteq> None"
  shows "int_cp decimal [32, b] = Inr (number_cp decimal [32, b])"
proof -
  have "b \<noteq> 32" using assms(2) decimal_ascii [OF assms(1), of 32] by auto
  then show ?thesis
    using assms(2) by (auto simp: int_cp_def number_cp_def)
qed

lemma ascii_decimal:
  "decimal_table decimal \<Longrightarrow> 48 \<le> c \<Longrightarrow> c \<le> 57 \<Longrightarrow> decimal c = Some (c - 48)"
  using decimal_ascii [of decimal c] by simp

lemma int_cp_day:
  assumes "decimal_table decimal" "day_text_cp decimal t"
  shows "int_cp decimal t = Inr (number_cp decimal t)"
proof -
  from assms(2) consider
    (blank) b where "t = [32, b]" "49 \<le> b" "b \<le> 57"
    | (digits) "t \<noteq> []" "list_all (\<lambda>c. decimal c \<noteq> None) t"
    unfolding day_text_cp_cases using ascii_decimal [OF assms(1)] by fastforce
  then show ?thesis
  proof cases
    case blank
    then show ?thesis using int_cp_blank [OF assms(1), of b] ascii_decimal [OF assms(1), of b] by simp
  next
    case digits
    then show ?thesis using int_cp_digits [OF assms(1)] by blast
  qed
qed

lemma int_cp_month:
  assumes "decimal_table decimal" "month_text_cp t"
  shows "int_cp decimal t = Inr (number_cp decimal t)"
proof -
  from assms(2) have "t \<noteq> []" "list_all (\<lambda>c. decimal c \<noteq> None) t"
    unfolding month_text_cp_cases using ascii_decimal [OF assms(1)] by fastforce+
  then show ?thesis using int_cp_digits [OF assms(1)] by blast
qed

lemma int_cp_year:
  assumes "decimal_table decimal" "year_text_cp decimal t"
  shows "int_cp decimal t = Inr (number_cp decimal t)"
proof -
  from assms(2) have "t \<noteq> []" "list_all (\<lambda>c. decimal c \<noteq> None) t"
    by (auto simp: year_text_cp_def)
  then show ?thesis using int_cp_digits [OF assms(1)] by blast
qed

lemma number_cp_year_bound:
  assumes "decimal_table decimal" "year_text_cp decimal t"
  shows "number_cp decimal t \<le> 9999"
proof -
  from assms(2) obtain a b c d va vb vc vd where t: "t = [a, b, c, d]"
    and v: "decimal a = Some va" "decimal b = Some vb" "decimal c = Some vc" "decimal d = Some vd"
    unfolding year_text_cp_cases by auto
  have "a \<noteq> 32" using v(1) decimal_ascii [OF assms(1), of 32] by auto
  moreover have "va \<le> 9" "vb \<le> 9" "vc \<le> 9" "vd \<le> 9"
    using v decimal_le_9 [OF assms(1)] by blast+
  ultimately show ?thesis by (simp add: t v number_cp_def)
qed

lemma strptime_cp_Inr:
  assumes "decimal_table decimal"
  shows "(strptime_cp decimal s = Inr dt) =
   (\<exists>d m y. s = d @ [46] @ m @ [46] @ y \<and>
      day_text_cp decimal d \<and> month_text_cp m \<and> year_text_cp decimal y \<and>
      real_calendar_date (number_cp decimal y) (number_cp decimal m) (number_cp decimal d) \<and>
      dt = Date (number_cp decimal y) (number_cp decimal m) (number_cp decimal d))"
  (is "?L = ?R")
proof
  assume l: ?L
  from format_regex_match_cp_cases [of decimal s] show ?R
  proof
    assume "format_regex_match_cp decimal s = None"
    with l show ?R by (simp add: strptime_cp_def)
  next
    assume "\<exists>d m y r. format_regex_match_cp decimal s = Some ((d, m, y), r)"
    then obtain d m y r where f: "format_regex_match_cp decimal s = Some ((d, m, y), r)" by blast
    then have t: "s = d @ [46] @ m @ [46] @ y @ r" "day_text_cp decimal d" "month_text_cp m"
        "year_text_cp decimal y"
      unfolding format_regex_match_cp_Some [OF assms] by blast+
    have i: "int_cp decimal d = Inr (number_cp decimal d)"
      "int_cp decimal m = Inr (number_cp decimal m)"
      "int_cp decimal y = Inr (number_cp decimal y)"
      using int_cp_day [OF assms t(2)] int_cp_month [OF assms t(3)] int_cp_year [OF assms t(4)]
      by blast+
    from l f i have r: "r = []"
      and c: "check_date_fields (number_cp decimal y) (number_cp decimal m) (number_cp decimal d) = Inr dt"
      by (auto simp: strptime_cp_def split: if_splits)
    with t show ?R unfolding check_date_fields_Inr by auto
  qed
next
  assume ?R
  then obtain d m y where s: "s = d @ [46] @ m @ [46] @ y @ []"
    and t: "day_text_cp decimal d" "month_text_cp m" "year_text_cp decimal y"
    and rd: "real_calendar_date (number_cp decimal y) (number_cp decimal m) (number_cp decimal d)"
    and dt: "dt = Date (number_cp decimal y) (number_cp decimal m) (number_cp decimal d)"
    by auto
  have f: "format_regex_match_cp decimal s = Some ((d, m, y), [])"
    unfolding format_regex_match_cp_Some [OF assms] using s t by blast
  have i: "int_cp decimal d = Inr (number_cp decimal d)"
    "int_cp decimal m = Inr (number_cp decimal m)"
    "int_cp decimal y = Inr (number_cp decimal y)"
    using int_cp_day [OF assms t(1)] int_cp_month [OF assms t(2)] int_cp_year [OF assms t(3)]
    by blast+
  have "check_date_fields (number_cp decimal y) (number_cp decimal m) (number_cp decimal d) = Inr dt"
    unfolding check_date_fields_Inr using rd dt number_cp_year_bound [OF assms t(3)] by simp
  with f i show ?L by (simp add: strptime_cp_def)
qed

lemma int_cp_error: "int_cp decimal t = Inl e \<Longrightarrow> \<exists>msg. e = ValueError msg"
  by (auto simp: int_cp_def split: list.splits option.splits)

lemma strptime_cp_error: "strptime_cp decimal s = Inl e \<Longrightarrow> \<exists>msg. e = ValueError msg"
  by (auto simp: strptime_cp_def split: option.splits if_splits sum.splits
      dest: check_date_fields_error int_cp_error)

lemma Birthday_init_cp_Inr:
  "(Birthday_init_cp decimal s = Inr b) = (\<exists>dt. strptime_cp decimal s = Inr dt \<and> b = (dt, s))"
  by (auto simp: Birthday_init_cp_def split: sum.splits error.splits)

lemma Birthday_init_cp_Inl:
  "Birthday_init_cp decimal s = Inl e \<Longrightarrow> e = ValueError ''Invalid date format. Use DD.MM.YYYY''"
  by (auto simp: Birthday_init_cp_def split: sum.splits error.splits dest: strptime_cp_error)

lemma matches_DD_MM_YYYY_cp_texts:
  assumes "decimal_table decimal" "matches_DD_MM_YYYY_cp s"
    and "real_calendar_date (number_cp decimal (drop 6 s)) (number_cp decimal (take 2 (drop 3 s)))
           (number_cp decimal (take 2 s))"
  shows "s = take 2 s @ [46] @ take 2 (drop 3 s) @ [46] @ drop 6 s \<and>
         day_text_cp decimal (take 2 s) \<and> month_text_cp (take 2 (drop 3 s)) \<and>
         year_text_cp decimal (drop 6 s)"
proof -
  from assms(2) have "length s = 10" by (simp add: matches_DD_MM_YYYY_cp_def)
  then obtain c0 c1 c2 c3 c4 c5 c6 c7 c8 c9 where s: "s = [c0, c1, c2, c3, c4, c5, c6, c7, c8, c9]"
    by (auto simp: length_Suc_conv numeral_eq_Suc)
  have a: "ascii_digit c0" "ascii_digit c1" "ascii_digit c3" "ascii_digit c4"
    "ascii_digit c6" "ascii_digit c7" "ascii_digit c8" "ascii_digit c9" "c2 = 46" "c5 = 46"
    using assms(2) unfolding s by (simp_all add: matches_DD_MM_YYYY_cp_def)
  have v: "decimal c = Some (c - 48)" if "ascii_digit c" for c
    using that ascii_decimal [OF assms(1), of c] by (simp add: ascii_digit_def)
  have n: "c0 \<noteq> 32" using a(1) by (simp add: ascii_digit_def)
  have nd: "number_cp decimal [c0, c1] = 10 * int (c0 - 48) + int (c1 - 48)"
    "number_cp decimal [c3, c4] = 10 * int (c3 - 48) + int (c4 - 48)"
    using a(1,3) v [OF a(1)] v [OF a(2)] v [OF a(3)] v [OF a(4)]
    by (simp_all add: number_cp_def ascii_digit_def)
  from assms(3) have r: "1 \<le> 10 * int (c0 - 48) + int (c1 - 48)"
    "10 * int (c0 - 48) + int (c1 - 48) \<le> 31"
    "1 \<le> 10 * int (c3 - 48) + int (c4 - 48)"
    "10 * int (c3 - 48) + int (c4 - 48) \<le> 12"
    using month_length_le [of "number_cp decimal (drop 6 s)" "number_cp decimal (take 2 (drop 3 s))"]
    unfolding s by (simp_all add: real_calendar_date_def nd)
  have d: "day_text_cp decimal [c0, c1]"
    using a(1,2) r(1,2) v [OF a(2)] by (auto simp: day_text_cp_def ascii_digit_def)
  have m: "month_text_cp [c3, c4]"
    using a(3,4) r(3,4) by (auto simp: month_text_cp_def ascii_digit_def)
  have y: "year_text_cp decimal [c6, c7, c8, c9]"
    using v [OF a(5)] v [OF a(6)] v [OF a(7)] v [OF a(8)] by (simp add: year_text_cp_def)
  show ?thesis
    unfolding s using a(9,10) d m y by simp
qed

text \<open>
  Claim C7, as amended. For every string \<open>s\<close>, constructing a Birthday from \<open>s\<close>
  succeeds exactly when \<open>s\<close> is a day, a dot, a month, a dot and a year, where the day
  is a digit from 1 to 9, or a blank or a 0 followed by a digit from 1 to 9, or a 1 or a 2
  followed by a decimal digit of any script, or a 3 followed by a 0 or a 1; the month is a
  digit from 1 to 9, or a 0 followed by a digit from 1 to 9, or a 1 followed by a 0, a 1
  or a 2; the year is four decimal digits of any script; and the three numbers are a real
  calendar date (years start at 1). The Birthday then holds \<open>s\<close> and that date. In
  particular every string of the pattern \<open>DD.MM.YYYY\<close> in ASCII digits that is a real
  calendar date is accepted. Every other string fails with the \<open>ValueError\<close> of the
  format, as \<open>30.02.2024\<close> and \<open>13/05/2024\<close> do.
\<close>

theorem Birthday_init_cp_iff:
  assumes "decimal_table decimal"
  shows
  "((\<exists>b. Birthday_init_cp decimal s = Inr b) \<longleftrightarrow>
      (\<exists>d m y. s = d @ [46] @ m @ [46] @ y \<and>
         day_text_cp decimal d \<and> month_text_cp m \<and> year_text_cp decimal y \<and>
         real_calendar_date (number_cp decimal y) (number_cp decimal m) (number_cp decimal d))) \<and>
   (\<forall>d m y. s = d @ [46] @ m @ [46] @ y \<and>
         day_text_cp decimal d \<and> month_text_cp m \<and> year_text_cp decimal y \<and>
         real_calendar_date (number_cp decimal y) (number_cp decimal m) (number_cp decimal d) \<longrightarrow>
      Birthday_init_cp decimal s =
        Inr (Date (number_cp decimal y) (number_cp decimal m) (number_cp decimal d), s)) \<and>
   (matches_DD_MM_YYYY_cp s \<and>
      real_calendar_date (number_cp decimal (drop 6 s)) (number_cp decimal (take 2 (drop 3 s)))
        (number_cp decimal (take 2 s)) \<longrightarrow>
      Birthday_init_cp decimal s =
        Inr (Date (number_cp decimal (drop 6 s)) (number_cp decimal (take 2 (drop 3 s)))
               (number_cp decimal (take 2 s)), s)) \<and>
   ((\<nexists>b. Birthday_init_cp decimal s = Inr b) \<longrightarrow>
      Birthday_init_cp decimal s = Inl (ValueError ''Invalid date format. Use DD.MM.YYYY'')) \<and>
   Birthday_init_cp decimal (map of_char ''30.02.2024'')
     = Inl (ValueError ''Invalid date format. Use DD.MM.YYYY'') \<and>
   Birthday_init_cp decimal (map of_char ''13/05/2024'')
     = Inl (ValueError ''Invalid date format. Use DD.MM.YYYY'')"
proof -
  have general: "s = d @ [46] @ m @ [46] @ y \<and>
         day_text_cp decimal d \<and> month_text_cp m \<and> year_text_cp decimal y \<and>
         real_calendar_date (number_cp decimal y) (number_cp decimal m) (number_cp decimal d) \<Longrightarrow>
      Birthday_init_cp decimal s =
        Inr (Date (number_cp decimal y) (number_cp decimal m) (number_cp decimal d), s)" for s d m y
    unfolding Birthday_init_cp_Inr strptime_cp_Inr [OF assms] by blast
  have iff: "(\<exists>b. Birthday_init_cp decimal s = Inr b) \<longleftrightarrow>
      (\<exists>d m y. s = d @ [46] @ m @ [46] @ y \<and>
         day_text_cp decimal d \<and> month_text_cp m \<and> year_text_cp decimal y \<and>
         real_calendar_date (number_cp decimal y) (number_cp decimal m) (number_cp decimal d))" for s
    unfolding Birthday_init_cp_Inr strptime_cp_Inr [OF assms] by blast
  have strict: "matches_DD_MM_YYYY_cp s \<and>
      real_calendar_date (number_cp decimal (drop 6 s)) (number_cp decimal (take 2 (drop 3 s)))
        (number_cp decimal (take 2 s)) \<Longrightarrow>
      Birthday_init_cp decimal s =
        Inr (Date (number_cp decimal (drop 6 s)) (number_cp decimal (take 2 (drop 3 s)))
               (number_cp decimal (take 2 s)), s)"
    using matches_DD_MM_YYYY_cp_texts [OF assms, of s]
      general [of s "take 2 s" "take 2 (drop 3 s)" "drop 6 s"]
    by blast
  have fails: "(\<nexists>b. Birthday_init_cp decimal s = Inr b) \<Longrightarrow>
      Birthday_init_cp decimal s = Inl (ValueError ''Invalid date format. Use DD.MM.YYYY'')" for s
    using Birthday_init_cp_Inl [of decimal s] by (cases "Birthday_init_cp decimal s") auto
  have e1: "Birthday_init_cp decimal (map of_char ''30.02.2024'')
      = Inl (ValueError ''Invalid date format. Use DD.MM.YYYY'')"
  proof (rule fails, rule notI)
    assume "\<exists>b. Birthday_init_cp decimal (map of_char ''30.02.2024'') = Inr b"
    then obtain d m y where
      s: "map of_char ''30.02.2024'' = d @ [46] @ m @ [46] @ y @ []"
      and t: "day_text_cp decimal d" "month_text_cp m" "year_text_cp decimal y"
      and r: "real_calendar_date (number_cp decimal y) (number_cp decimal m) (number_cp decimal d)"
      unfolding iff by auto
    have v: "decimal 48 = Some 0" "decimal 50 = Some 2" "decimal 52 = Some 4" "decimal 51 = Some 3"
      using ascii_decimal [OF assms] by simp_all
    have t0: "day_text_cp decimal [51, 48]" "month_text_cp [48, 50]"
      "year_text_cp decimal [50, 48, 50, 52]"
      by (simp_all add: day_text_cp_def month_text_cp_def year_text_cp_def v)
    have "map of_char ''30.02.2024'' = [51, 48] @ [46] @ [48, 50] @ [46] @ [50, 48, 50, 52] @ ([]::nat list)"
      by simp
    with s have "d @ [46] @ m @ [46] @ y @ [] = [51, 48] @ [46] @ [48, 50] @ [46] @ [50, 48, 50, 52] @ []"
      by simp
    from decomposition_cp_unique [OF this assms t(1) t0(1) t(2) t0(2) t(3) t0(3)]
    have "d = [51, 48]" "m = [48, 50]" "y = [50, 48, 50, 52]" by simp_all
    with r show False
      by (simp add: number_cp_def v real_calendar_date_def month_length_def leap_year_def)
  qed
  have e2: "Birthday_init_cp decimal (map of_char ''13/05/2024'')
      = Inl (ValueError ''Invalid date format. Use DD.MM.YYYY'')"
  proof (rule fails, rule notI)
    assume "\<exists>b. Birthday_init_cp decimal (map of_char ''13/05/2024'') = Inr b"
    then obtain d m y where "(map of_char ''13/05/2024'' :: nat list) = d @ [46] @ m @ [46] @ y"
      unfolding iff by auto
    then have "(46::nat) \<in> set (map of_char ''13/05/2024'')"
      by (simp only: set_append) simp
    then show False by simp
  qed
  from general [of s] iff [of s] strict fails [of s] e1 e2 show ?thesis by blast
qed

lemma decimal_table_example: "decimal_table example_decimal"
  by (auto simp: decimal_table_def example_decimal_def)

theorem Birthday_init_cp_iff_witness:
  "decimal_table example_decimal \<and>
   matches_DD_MM_YYYY_cp (map of_char ''15.06.1990'') \<and>
   real_calendar_date 1990 6 15 \<and>
   Birthday_init_cp example_decimal (map of_char ''15.06.1990'')
     = Inr (Date 1990 6 15, map of_char ''15.06.1990'') \<and>
   Birthday_init_cp example_decimal [49, 53, 46, 48, 54, 46, 1633, 1641, 1641, 1632]
     = Inr (Date 1990 6 15, [49, 53, 46, 48, 54, 46, 1633, 1641, 1641, 1632]) \<and>
   Birthday_init_cp example_decimal [49, 53, 46, 1632, 1638, 46, 49, 57, 57, 48]
     = Inl (ValueError ''Invalid date format. Use DD.MM.YYYY'')"
proof -
  have m: "matches_DD_MM_YYYY_cp (map of_char ''15.06.1990'')"
    by (simp add: matches_DD_MM_YYYY_cp_def ascii_digit_def)
  have n: "number_cp example_decimal (drop 6 (map of_char ''15.06.1990'')) = 1990"
    "number_cp example_decimal (take 2 (drop 3 (map of_char ''15.06.1990''))) = 6"
    "number_cp example_decimal (take 2 (map of_char ''15.06.1990'')) = 15"
    by (simp_all add: number_cp_def example_decimal_def)
  have r: "real_calendar_date 1990 6 15"
    by (simp add: real_calendar_date_def month_length_def)
  from Birthday_init_cp_iff [OF decimal_table_example, of "map of_char ''15.06.1990''"] m r
  have 1: "Birthday_init_cp example_decimal (map of_char ''15.06.1990'')
     = Inr (Date 1990 6 15, map of_char ''15.06.1990'')"
    unfolding n by blast
  have 2: "Birthday_init_cp example_decimal [49, 53, 46, 48, 54, 46, 1633, 1641, 1641, 1632]
     = Inr (Date 1990 6 15, [49, 53, 46, 48, 54, 46, 1633, 1641, 1641, 1632])"
    by code_simp
  have 3: "Birthday_init_cp example_decimal [49, 53, 46, 1632, 1638, 46, 49, 57, 57, 48]
     = Inl (ValueError ''Invalid date format. Use DD.MM.YYYY'')"
    by code_simp
  from decimal_table_example m r 1 2 3 show ?thesis by blast
qed

end
